theory Spec2Isabelle
  imports Complex_Main "HOL-Library.Word"
begin

section \<open>Sampling module of LogicalVision2 (sampler.hpp)\<close>

text \<open>
  The module works on \<^verbatim>\<open>cv::Scalar\<close> values, which hold doubles. The roles the source
  gives them are kept apart here, following the data model of the specification:
  \<^item> a position (Point3D) and a canvas size (Bound3D) hold integers, so the conversion
    \<^verbatim>\<open>int x = point[0]\<close> is the identity on them and they are triples of \<open>int\<close>;
  \<^item> a direction and a radius are triples of reals; where the source converts a
    component to \<^verbatim>\<open>int\<close> the model truncates towards zero (\<open>c_int\<close>).
  C++ \<^verbatim>\<open>int\<close> arithmetic is modelled by unbounded integers: signed overflow is undefined
  in C++, and the model is the program wherever no intermediate value leaves the
  range of \<^verbatim>\<open>int\<close>. Double arithmetic that produces a value (a corner of the clipped
  box, a mean, a sum of squared deviations, a logarithm, a square root) is modelled by
  exact reals. The ellipsoid test of the local neighbourhoods compares a rounded sum
  with 1 and decides which pixels are read; it is modelled in binary64 arithmetic,
  operation by operation.
\<close>

type_synonym point = "int \<times> int \<times> int"
type_synonym vec3 = "real \<times> real \<times> real"

text \<open>What the code cannot return as a value: a failed \<^verbatim>\<open>assert\<close>, and behaviour the
  language leaves undefined (reading a vector or a matrix out of range, converting a
  NaN to \<^verbatim>\<open>int\<close>).\<close>

datatype error = InvalidArgument | Undefined

text \<open>\<^verbatim>\<open>int dx = direction[0]\<close>: conversion of a double to int truncates towards zero.\<close>

definition c_int :: "real \<Rightarrow> int" where
  "c_int r = (if 0 \<le> r then \<lfloor>r\<rfloor> else \<lceil>r\<rceil>)"

subsection \<open>Canvas test and adjacency\<close>

definition out_of_canvas :: "point \<Rightarrow> point \<Rightarrow> bool" where
  "out_of_canvas point bound =
     (case point of (x, y, z) \<Rightarrow> case bound of (b0, b1, b2) \<Rightarrow>
        if x \<ge> 0 \<and> x \<le> b0 - 1 \<and> y \<ge> 0 \<and> y \<le> b1 - 1 \<and> z \<ge> 0 \<and> z \<le> b2 - 1
        then False else True)"

definition point_cont :: "point \<Rightarrow> point \<Rightarrow> bool" where
  "point_cont p1 p2 =
     (case p1 of (x1, y1, z1) \<Rightarrow> case p2 of (x2, y2, z2) \<Rightarrow>
        if max \<bar>x1 - x2\<bar> (max \<bar>y1 - y2\<bar> \<bar>z1 - z2\<bar>) < 2 then True else False)"

subsection \<open>The stepping loops of the 3-D Bresenham algorithm\<close>

text \<open>
  Each of the three \<^verbatim>\<open>for (int cont = 0; cont < Adx; cont++)\<close> loops of \<^verbatim>\<open>bresenham\<close> and
  of \<^verbatim>\<open>get_line_seg_points\<close> is the same loop up to the roles of the axes: a driving
  coordinate \<open>a\<close> that advances by its increment in every iteration, and two
  coordinates \<open>b\<close> (error term \<^verbatim>\<open>err_1\<close>) and \<open>c\<close> (error term \<^verbatim>\<open>err_2\<close>). \<open>drive_loop\<close> is
  that loop: \<open>mk\<close> puts the coordinates back in the order column, row, frame, \<open>keep\<close>
  is the test under which the new point is pushed (otherwise the loop breaks), and
  the first numeric argument is the number of iterations left. It returns the
  coordinates at loop exit and the extended point list.
\<close>

fun drive_loop ::
  "(point \<Rightarrow> bool) \<Rightarrow> (int \<Rightarrow> int \<Rightarrow> int \<Rightarrow> point) \<Rightarrow> int \<times> int \<times> int \<Rightarrow> int \<times> int \<times> int \<Rightarrow>
   nat \<Rightarrow> int \<times> int \<times> int \<times> int \<times> int \<Rightarrow> point list \<Rightarrow> (int \<times> int \<times> int) \<times> point list" where
  "drive_loop keep mk incs ds 0 (a, b, c, err_1, err_2) pts = ((a, b, c), pts)"
| "drive_loop keep mk (a_inc, b_inc, c_inc) (da2, db2, dc2) (Suc n) (a, b, c, err_1, err_2) pts =
     (let b' = (if err_1 > 0 then b + b_inc else b);
          e1 = (if err_1 > 0 then err_1 - da2 else err_1);
          c' = (if err_2 > 0 then c + c_inc else c);
          e2 = (if err_2 > 0 then err_2 - da2 else err_2);
          e1' = e1 + db2;
          e2' = e2 + dc2;
          a' = a + a_inc;
          p = mk a' b' c'
      in if keep p
         then drive_loop keep mk (a_inc, b_inc, c_inc) (da2, db2, dc2) n (a', b', c', e1', e2') (pts @ [p])
         else ((a', b', c'), pts))"

text \<open>The loop of the branch \<^verbatim>\<open>Adx >= Ady && Adx >= Adz\<close>: column drives, \<^verbatim>\<open>err_1\<close> is the
  row's, \<^verbatim>\<open>err_2\<close> the frame's.\<close>

definition loop_x ::
  "(point \<Rightarrow> bool) \<Rightarrow> int \<times> int \<times> int \<Rightarrow> int \<times> int \<times> int \<Rightarrow> point \<times> point list \<Rightarrow> point \<times> point list" where
  "loop_x keep inc Ad s =
     (case inc of (x_inc, y_inc, z_inc) \<Rightarrow> case Ad of (Adx, Ady, Adz) \<Rightarrow>
      case s of ((x, y, z), pts) \<Rightarrow>
        (let dx2 = Adx * 2; dy2 = Ady * 2; dz2 = Adz * 2
         in case drive_loop keep (\<lambda>a b c. (a, b, c)) (x_inc, y_inc, z_inc) (dx2, dy2, dz2)
                   (nat Adx) (x, y, z, dy2 - Adx, dz2 - Adx) pts
            of ((a, b, c), pts') \<Rightarrow> ((a, b, c), pts')))"

text \<open>The loop of the branch \<^verbatim>\<open>Ady > Adx && Ady >= Adz\<close>: row drives, \<^verbatim>\<open>err_1\<close> is the
  column's, \<^verbatim>\<open>err_2\<close> the frame's.\<close>

definition loop_y ::
  "(point \<Rightarrow> bool) \<Rightarrow> int \<times> int \<times> int \<Rightarrow> int \<times> int \<times> int \<Rightarrow> point \<times> point list \<Rightarrow> point \<times> point list" where
  "loop_y keep inc Ad s =
     (case inc of (x_inc, y_inc, z_inc) \<Rightarrow> case Ad of (Adx, Ady, Adz) \<Rightarrow>
      case s of ((x, y, z), pts) \<Rightarrow>
        (let dx2 = Adx * 2; dy2 = Ady * 2; dz2 = Adz * 2
         in case drive_loop keep (\<lambda>a b c. (b, a, c)) (y_inc, x_inc, z_inc) (dy2, dx2, dz2)
                   (nat Ady) (y, x, z, dx2 - Ady, dz2 - Ady) pts
            of ((a, b, c), pts') \<Rightarrow> ((b, a, c), pts')))"

text \<open>The loop of the branch \<^verbatim>\<open>Adz > Adx && Adz > Ady\<close>: frame drives, \<^verbatim>\<open>err_1\<close> is the
  row's, \<^verbatim>\<open>err_2\<close> the column's.\<close>

definition loop_z ::
  "(point \<Rightarrow> bool) \<Rightarrow> int \<times> int \<times> int \<Rightarrow> int \<times> int \<times> int \<Rightarrow> point \<times> point list \<Rightarrow> point \<times> point list" where
  "loop_z keep inc Ad s =
     (case inc of (x_inc, y_inc, z_inc) \<Rightarrow> case Ad of (Adx, Ady, Adz) \<Rightarrow>
      case s of ((x, y, z), pts) \<Rightarrow>
        (let dx2 = Adx * 2; dy2 = Ady * 2; dz2 = Adz * 2
         in case drive_loop keep (\<lambda>a b c. (c, b, a)) (z_inc, y_inc, x_inc) (dz2, dy2, dx2)
                   (nat Adz) (z, y, x, dy2 - Adz, dx2 - Adz) pts
            of ((a, b, c), pts') \<Rightarrow> ((c, b, a), pts')))"

text \<open>The three \<^verbatim>\<open>if\<close> blocks in sequence, as both rasterizers have them.\<close>

definition stepping ::
  "(point \<Rightarrow> bool) \<Rightarrow> int \<times> int \<times> int \<Rightarrow> int \<times> int \<times> int \<Rightarrow> point \<times> point list \<Rightarrow> point \<times> point list" where
  "stepping keep inc Ad s =
     (case Ad of (Adx, Ady, Adz) \<Rightarrow>
        (let s1 = (if Adx \<ge> Ady \<and> Adx \<ge> Adz then loop_x keep inc Ad s else s);
             s2 = (if Ady > Adx \<and> Ady \<ge> Adz then loop_y keep inc Ad s1 else s1);
             s3 = (if Adz > Adx \<and> Adz > Ady then loop_z keep inc Ad s2 else s2)
         in s3))"

text \<open>The component of a triple on the driving axis, chosen as the three branches
  choose the axis: column first, then row, then frame.\<close>

definition driving :: "int \<times> int \<times> int \<Rightarrow> int \<times> int \<times> int \<Rightarrow> int" where
  "driving Ad t =
     (case Ad of (Adx, Ady, Adz) \<Rightarrow> case t of (x, y, z) \<Rightarrow>
        if Adx \<ge> Ady \<and> Adx \<ge> Adz then x else if Ady > Adx \<and> Ady \<ge> Adz then y else z)"

subsection \<open>Rays and lines\<close>

text \<open>\<^verbatim>\<open>bresenham\<close> calls itself while the point it stopped at is in the canvas; nothing
  in it bounds the number of calls, so a run that never returns is the value \<open>None\<close>.\<close>

partial_function (option) bresenham ::
  "point \<Rightarrow> vec3 \<Rightarrow> int \<times> int \<times> int \<Rightarrow> point \<Rightarrow> point list \<Rightarrow> point list option" where
  "bresenham current direction inc bound points =
     (case stepping (\<lambda>p. \<not> out_of_canvas p bound) inc
             (\<bar>c_int (fst direction)\<bar>, \<bar>c_int (fst (snd direction))\<bar>, \<bar>c_int (snd (snd direction))\<bar>)
             (current, points)
      of (point, points') \<Rightarrow>
        if \<not> out_of_canvas point bound
        then bresenham point direction inc bound points'
        else Some points')"

declare bresenham.simps [code]

definition get_line_points :: "point \<Rightarrow> vec3 \<Rightarrow> point \<Rightarrow> point list option" where
  "get_line_points point direction bound =
     (case direction of (d0, d1, d2) \<Rightarrow>
        if d0 = 0 \<and> d1 = 0 \<and> d2 = 0 then Some []
        else
          (let c_inc = (if d0 > 0 then 1 else - 1);
               r_inc = (if d1 > 0 then 1 else - 1);
               d_inc = (if d2 > 0 then 1 else - 1)
           in case bresenham point direction (c_inc, r_inc, d_inc) bound [] of
                None \<Rightarrow> None
              | Some re \<Rightarrow>
                  (case bresenham point direction (- 1 * c_inc, - 1 * r_inc, - 1 * d_inc) bound
                          (rev re @ [point]) of
                     None \<Rightarrow> None
                   | Some re' \<Rightarrow> Some (rev re'))))"

subsection \<open>Segments\<close>

text \<open>The macro \<^verbatim>\<open>SWAP(a, b) {a = a + b; b = a - b; a = a - b;}\<close>.\<close>

definition SWAP :: "int \<Rightarrow> int \<Rightarrow> int \<times> int" where
  "SWAP a b = (let a1 = a + b; b1 = a1 - b; a2 = a1 - b1 in (a2, b1))"

text \<open>The \<^verbatim>\<open>while\<close> loop of \<^verbatim>\<open>get_line_seg_points\<close>; its state is the current point and the
  point list. A loop that never exits is the value \<open>None\<close>.\<close>

partial_function (option) seg_while ::
  "point \<Rightarrow> point \<Rightarrow> int \<times> int \<times> int \<Rightarrow> int \<times> int \<times> int \<Rightarrow> point \<times> point list \<Rightarrow>
   (point \<times> point list) option" where
  "seg_while bound end2 inc Ad s =
     (if \<not> out_of_canvas (fst s) bound \<and> \<not> (fst s = end2)
      then seg_while bound end2 inc Ad
             (stepping (\<lambda>p. \<not> out_of_canvas p bound \<and> \<not> (p = end2)) inc Ad s)
      else Some s)"

declare seg_while.simps [code]

definition get_line_seg_points :: "point \<Rightarrow> point \<Rightarrow> point \<Rightarrow> point list option" where
  "get_line_seg_points start endp bound =
     (case start of (x, y, z) \<Rightarrow> case endp of (x2, y2, z2) \<Rightarrow>
        if x = x2 \<and> y = y2 \<and> z = z2 then Some []
        else if out_of_canvas start bound \<and> out_of_canvas endp bound then Some []
        else
          (let sw = (out_of_canvas start bound \<and> \<not> out_of_canvas endp bound);
               xs = (if sw then SWAP x x2 else (x, x2));
               ys = (if sw then SWAP y y2 else (y, y2));
               zs = (if sw then SWAP z z2 else (z, z2));
               x = fst xs; x2 = snd xs;
               y = fst ys; y2 = snd ys;
               z = fst zs; z2 = snd zs;
               dx = x2 - x; dy = y2 - y; dz = z2 - z;
               x_inc = (if dx > 0 then 1 else - 1);
               y_inc = (if dy > 0 then 1 else - 1);
               z_inc = (if dz > 0 then 1 else - 1)
           in case seg_while bound (x2, y2, z2) (x_inc, y_inc, z_inc) (\<bar>dx\<bar>, \<bar>dy\<bar>, \<bar>dz\<bar>)
                     ((x, y, z), [(x, y, z)]) of
                None \<Rightarrow> None
              | Some (p, re) \<Rightarrow> Some (re @ [(x2, y2, z2)])))"

subsection \<open>Ellipse outlines\<close>

text \<open>
  \<^verbatim>\<open>get_ellipse_points\<close> asks OpenCV's \<^verbatim>\<open>ellipse2Poly\<close> for the vertices of a polygon and
  joins consecutive vertices by segments. \<^verbatim>\<open>ellipse2Poly\<close> is a library function, a
  parameter here: it maps the centre, the size, the angle, the arc and the step to
  the vertex list.

  Modelled from the spec: the operator \<^verbatim>\<open>re += temp_pts\<close> on point vectors is declared
  in utils.hpp, which is not among the sources; by the specification the segments are
  concatenated, so it is list append.
\<close>

fun ellipse_segs :: "int \<times> int \<Rightarrow> (int \<times> int) list \<Rightarrow> int \<Rightarrow> point \<Rightarrow> point list \<Rightarrow> point list option" where
  "ellipse_segs p0 [] cz bound re = Some re"
| "ellipse_segs p0 (p # v) cz bound re =
     (case get_line_seg_points (fst p0, snd p0, cz) (fst p, snd p, cz) bound of
        None \<Rightarrow> None
      | Some temp_pts \<Rightarrow> ellipse_segs p v cz bound (re @ temp_pts))"

definition get_ellipse_points ::
  "(int \<times> int \<Rightarrow> int \<times> int \<Rightarrow> int \<Rightarrow> int \<Rightarrow> int \<Rightarrow> int \<Rightarrow> (int \<times> int) list) \<Rightarrow>
   point \<Rightarrow> vec3 \<Rightarrow> point \<Rightarrow> point list option" where
  "get_ellipse_points ellipse2Poly centre param bound =
     (case centre of (cx, cy, cz) \<Rightarrow> case param of (p0, p1, p2) \<Rightarrow>
        (let width = \<bar>c_int p0\<bar>;
             height = \<bar>c_int p1\<bar>;
             wh = (if width > height then SWAP width height else (width, height));
             v = ellipse2Poly (cx, cy) (fst wh, snd wh) (c_int p2) 0 360 3
         in if int (length v) \<le> 0 then Some []
            else ellipse_segs (hd v) (tl v) cz bound []))"

subsection \<open>Frames\<close>

text \<open>
  A frame is a \<^verbatim>\<open>cv::Mat\<close> of \<^verbatim>\<open>Vec3b\<close> pixels: its size and its pixel store, read at
  (row, column). \<^verbatim>\<open>Mat::at\<close> and \<^verbatim>\<open>vector::operator[]\<close> do not check their index;
  reading out of range is undefined.
\<close>

type_synonym Vec3b = "8 word \<times> 8 word \<times> 8 word"

record Mat =
  cols :: int
  rows :: int
  data :: "int \<Rightarrow> int \<Rightarrow> Vec3b"

definition bind_e :: "error + 'a \<Rightarrow> ('a \<Rightarrow> error + 'b) \<Rightarrow> error + 'b" where
  "bind_e m f = (case m of Inl e \<Rightarrow> Inl e | Inr a \<Rightarrow> f a)"

definition Mat_at :: "Mat \<Rightarrow> int \<Rightarrow> int \<Rightarrow> error + Vec3b" where
  "Mat_at img r c =
     (if 0 \<le> r \<and> r < rows img \<and> 0 \<le> c \<and> c < cols img then Inr (data img r c) else Inl Undefined)"

definition images_at :: "Mat list \<Rightarrow> int \<Rightarrow> error + Mat" where
  "images_at images i =
     (if 0 \<le> i \<and> i < int (length images) then Inr (images ! nat i) else Inl Undefined)"

definition channel :: "Vec3b \<Rightarrow> nat \<Rightarrow> real" where
  "channel pixel ch =
     real (unat (if ch = 0 then fst pixel else if ch = 1 then fst (snd pixel) else snd (snd pixel)))"

subsection \<open>Scharr gradient\<close>

definition gx :: "nat \<Rightarrow> nat \<Rightarrow> real" where
  "gx i j = ([[3, 10, 3], [0, 0, 0], [- 3, - 10, - 3]] ! i ! j) / 32"

definition gy :: "nat \<Rightarrow> nat \<Rightarrow> real" where
  "gy i j = ([[3, 0, - 3], [10, 0, - 10], [3, 0, - 3]] ! i ! j) / 32"

definition brightness :: "Mat \<Rightarrow> int \<Rightarrow> int \<Rightarrow> error + real" where
  "brightness img r c = bind_e (Mat_at img r c) (\<lambda>pixel. Inr (channel pixel 0))"

definition cv_imgs_point_scharr :: "Mat list \<Rightarrow> point \<Rightarrow> error + real" where
  "cv_imgs_point_scharr images point =
     bind_e (images_at images 0) (\<lambda>first.
       case point of (x, y, frame) \<Rightarrow>
         (let w = cols first; h = rows first
          in if x < 1 \<or> y < 1 \<or> x > w - 2 \<or> y > h - 2 then Inr 0
             else
               bind_e (images_at images frame) (\<lambda>img.
               bind_e (brightness img (y - 1) (x - 1)) (\<lambda>A00.
               bind_e (brightness img (y - 1) x) (\<lambda>A01.
               bind_e (brightness img (y - 1) (x + 1)) (\<lambda>A02.
               bind_e (brightness img y (x - 1)) (\<lambda>A10.
               bind_e (brightness img y x) (\<lambda>A11.
               bind_e (brightness img y (x + 1)) (\<lambda>A12.
               bind_e (brightness img (y + 1) (x - 1)) (\<lambda>A20.
               bind_e (brightness img (y + 1) x) (\<lambda>A21.
               bind_e (brightness img (y + 1) (x + 1)) (\<lambda>A22.
                 (let Gx = gx 2 2 * A00 + gx 2 1 * A01 + gx 2 0 * A02
                         + gx 1 2 * A10 + gx 1 1 * A11 + gx 1 0 * A12
                         + gx 0 2 * A20 + gx 0 1 * A21 + gx 0 0 * A22;
                      Gy = gy 2 2 * A00 + gy 2 1 * A01 + gy 2 0 * A02
                         + gy 1 2 * A10 + gy 1 1 * A11 + gy 1 0 * A12
                         + gy 0 2 * A20 + gy 0 1 * A21 + gy 0 0 * A22;
                      G = sqrt (Gx * Gx + Gy * Gy)
                  in Inr G)))))))))))))"

subsection \<open>Gradient-threshold samplers\<close>

text \<open>
  The loop over the rasterized points, the same text in both samplers. Its state is
  \<^verbatim>\<open>tmp_last\<close>, \<^verbatim>\<open>tmp_max\<close>, \<^verbatim>\<open>tmp_g\<close> and \<^verbatim>\<open>cont\<close>, and the result vector \<^verbatim>\<open>re\<close>.
\<close>

fun thin_loop ::
  "(point \<Rightarrow> error + real) \<Rightarrow> real \<Rightarrow> point list \<Rightarrow> point \<times> point \<times> real \<times> bool \<Rightarrow> point list \<Rightarrow>
   error + point list" where
  "thin_loop scharr grad_threshold [] st re = Inr re"
| "thin_loop scharr grad_threshold (pt # rest) (tmp_last, tmp_max, tmp_g, cont) re =
     bind_e (scharr pt) (\<lambda>grad.
       if grad \<ge> grad_threshold then
         (if \<not> cont then thin_loop scharr grad_threshold rest (pt, pt, grad, True) re
          else if point_cont tmp_last pt then
            (if grad \<ge> tmp_g
             then thin_loop scharr grad_threshold rest (pt, pt, grad, True) re
             else thin_loop scharr grad_threshold rest (pt, tmp_max, tmp_g, True) re)
          else thin_loop scharr grad_threshold rest (tmp_last, tmp_max, tmp_g, False) (re @ [tmp_max]))
       else thin_loop scharr grad_threshold rest (tmp_last, tmp_max, tmp_g, cont) re)"

text \<open>
  What both samplers do with the rasterized points: push \<^verbatim>\<open>*line_points.begin()\<close>, run
  the loop, push \<^verbatim>\<open>*line_points.rbegin()\<close>. Dereferencing \<^verbatim>\<open>begin()\<close> of an empty vector
  is undefined.
\<close>

definition scharr_thinning :: "Mat list \<Rightarrow> point list \<Rightarrow> real \<Rightarrow> error + point list" where
  "scharr_thinning images line_points grad_threshold =
     (if line_points = [] then Inl Undefined
      else
        bind_e (thin_loop (cv_imgs_point_scharr images) grad_threshold line_points
                  ((0, 0, 0), (0, 0, 0), 0, False) [hd line_points])
          (\<lambda>re. Inr (re @ [last line_points])))"

definition cv_line_pts_scharr_geq_T ::
  "Mat list \<Rightarrow> point \<Rightarrow> vec3 \<Rightarrow> real \<Rightarrow> (error + point list) option" where
  "cv_line_pts_scharr_geq_T images point direction grad_threshold =
     (case images_at images 0 of
        Inl e \<Rightarrow> Some (Inl e)
      | Inr first \<Rightarrow>
          (case get_line_points point direction (cols first, rows first, int (length images)) of
             None \<Rightarrow> None
           | Some line_points \<Rightarrow> Some (scharr_thinning images line_points grad_threshold)))"

definition cv_line_seg_pts_scharr_geq_T ::
  "Mat list \<Rightarrow> point \<Rightarrow> point \<Rightarrow> real \<Rightarrow> (error + point list) option" where
  "cv_line_seg_pts_scharr_geq_T images start endp grad_threshold =
     (case images_at images 0 of
        Inl e \<Rightarrow> Some (Inl e)
      | Inr first \<Rightarrow>
          (case get_line_seg_points start endp (cols first, rows first, int (length images)) of
             None \<Rightarrow> None
           | Some line_points \<Rightarrow> Some (scharr_thinning images line_points grad_threshold)))"

subsection \<open>Local neighbourhoods\<close>

definition left_up :: "int \<Rightarrow> real \<Rightarrow> real" where
  "left_up p r = (if real_of_int p - r < 0 then 0 else real_of_int p - r)"

definition right_down :: "int \<Rightarrow> real \<Rightarrow> int \<Rightarrow> real" where
  "right_down p r b = (if real_of_int p + r \<ge> real_of_int b then real_of_int b - 1 else real_of_int p + r)"

definition bound_scalar_3d :: "point \<Rightarrow> vec3 \<Rightarrow> point \<Rightarrow> vec3 \<times> vec3" where
  "bound_scalar_3d point radius bound =
     (case point of (p0, p1, p2) \<Rightarrow> case radius of (r0, r1, r2) \<Rightarrow> case bound of (b0, b1, b2) \<Rightarrow>
        ((left_up p0 r0, left_up p1 r1, left_up p2 r2),
         (right_down p0 r0 b0, right_down p1 r1 b1, right_down p2 r2 b2)))"

text \<open>The values of a loop \<^verbatim>\<open>for (auto i = lo; i <= hi; i++)\<close> whose counter is a double.\<close>

function range_d :: "real \<Rightarrow> real \<Rightarrow> real list" where
  "range_d lo hi = (if lo \<le> hi then lo # range_d (lo + 1) hi else [])"
  by pat_completeness auto
termination
proof (relation "measure (\<lambda>(lo, hi). nat (\<lfloor>hi - lo\<rfloor> + 1))")
  show "wf (measure (\<lambda>(lo, hi). nat (\<lfloor>hi - lo\<rfloor> + 1)))"
    by simp
next
  fix lo hi :: real
  assume le: "lo \<le> hi"
  have "hi - (lo + 1) = (hi - lo) - 1"
    by simp
  then have "\<lfloor>hi - (lo + 1)\<rfloor> = \<lfloor>hi - lo\<rfloor> - 1"
    by (simp only: floor_diff_one)
  moreover have "0 \<le> \<lfloor>hi - lo\<rfloor>"
    using le by simp
  ultimately show "((lo + 1, hi), (lo, hi)) \<in> measure (\<lambda>(lo, hi). nat (\<lfloor>hi - lo\<rfloor> + 1))"
    by simp
qed

declare range_d.simps [simp del]

subsection \<open>Binary64 arithmetic of the ellipsoid test\<close>

text \<open>
  A double operation returns the exact result rounded to the nearest number with 53
  significant bits, ties to the even significand (IEEE 754 binary64 in its default
  mode, as the SSE2 arithmetic of x86-64 computes it). \<open>expo x\<close> is the binary exponent
  of a positive \<open>x\<close>, \<open>fl\<close> the rounding. The exponent range is not bounded here:
  an overflow gives an infinity in the code and a huge number in the model, an
  underflow a zero or a tiny number, and the comparison with 1 has the same outcome.
  The square is \<^verbatim>\<open>pow\<close> of the C library, which need not be correctly rounded; it is a
  parameter \<open>c_pow\<close> of the model.
\<close>

fun bits :: "nat \<Rightarrow> nat" where
  "bits n = (if n = 0 then 0 else Suc (bits (n div 2)))"

declare bits.simps [simp del]

definition pow2 :: "int \<Rightarrow> real" where
  "pow2 k = (if 0 \<le> k then 2 ^ nat k else 1 / 2 ^ nat (- k))"

definition expo :: "real \<Rightarrow> int" where
  "expo x = (if 1 \<le> x then int (bits (nat \<lfloor>x\<rfloor>)) - 1 else - int (bits (nat (\<lceil>1 / x\<rceil> - 1))))"

definition round_even :: "real \<Rightarrow> int" where
  "round_even y =
     (let f = \<lfloor>y\<rfloor>; d = y - real_of_int f
      in if d < 1 / 2 then f else if d > 1 / 2 then f + 1 else if even f then f else f + 1)"

definition fl :: "real \<Rightarrow> real" where
  "fl x = (if x = 0 then 0
           else (let e = expo \<bar>x\<bar> in real_of_int (round_even (x * pow2 (52 - e))) * pow2 (e - 52)))"

definition d_add :: "real \<Rightarrow> real \<Rightarrow> real" where
  "d_add x y = fl (x + y)"

definition d_sub :: "real \<Rightarrow> real \<Rightarrow> real" where
  "d_sub x y = fl (x - y)"

definition d_div :: "real \<Rightarrow> real \<Rightarrow> real" where
  "d_div x y = fl (x / y)"

text \<open>\<^verbatim>\<open>radius[0] > 0 ? pow(((double) c - point[0])/radius[0], 2) : 0\<close>.\<close>

definition ellipsoid_term :: "(real \<Rightarrow> real \<Rightarrow> real) \<Rightarrow> real \<Rightarrow> int \<Rightarrow> real \<Rightarrow> real" where
  "ellipsoid_term c_pow c p r = (if r > 0 then c_pow (d_div (d_sub c (real_of_int p)) r) 2 else 0)"

text \<open>The three nested loops that collect \<^verbatim>\<open>point_set\<close>, the same text in
  \<^verbatim>\<open>cv_imgs_point_var_loc\<close> and \<^verbatim>\<open>cv_imgs_point_color_loc\<close>.\<close>

definition local_point_set :: "(real \<Rightarrow> real \<Rightarrow> real) \<Rightarrow> point \<Rightarrow> vec3 \<Rightarrow> point \<Rightarrow> vec3 list" where
  "local_point_set c_pow point radius bound =
     (case bound_scalar_3d point radius bound of (left_up_most, right_down_most) \<Rightarrow>
      case point of (p0, p1, p2) \<Rightarrow> case radius of (r0, r1, r2) \<Rightarrow>
        concat (map (\<lambda>i.
          concat (map (\<lambda>r.
            concat (map (\<lambda>c.
              if d_add (d_add (ellipsoid_term c_pow c p0 r0) (ellipsoid_term c_pow r p1 r1))
                   (ellipsoid_term c_pow i p2 r2) \<le> 1
              then [(c, r, i)] else [])
              (range_d (fst left_up_most) (fst right_down_most))))
            (range_d (fst (snd left_up_most)) (fst (snd right_down_most)))))
          (range_d (snd (snd left_up_most)) (snd (snd right_down_most)))))"

text \<open>\<^verbatim>\<open>(*images)[pos[2]]\<close> and \<^verbatim>\<open>img.at<Vec3b>(pos[1], pos[0])\<close>: the position is a Scalar,
  its components are converted to indices.\<close>

definition pixel_at :: "Mat list \<Rightarrow> vec3 \<Rightarrow> error + Vec3b" where
  "pixel_at images pos =
     (case pos of (c, r, i) \<Rightarrow>
        bind_e (images_at images (c_int i)) (\<lambda>img. Mat_at img (c_int r) (c_int c)))"

fun sum_pixels :: "Mat list \<Rightarrow> vec3 list \<Rightarrow> vec3 \<Rightarrow> error + vec3" where
  "sum_pixels images [] avg = Inr avg"
| "sum_pixels images (pos # rest) (a0, a1, a2) =
     bind_e (pixel_at images pos) (\<lambda>pixel.
       sum_pixels images rest (a0 + channel pixel 0, a1 + channel pixel 1, a2 + channel pixel 2))"

fun sum_sq_dev :: "Mat list \<Rightarrow> vec3 \<Rightarrow> vec3 list \<Rightarrow> vec3 \<Rightarrow> error + vec3" where
  "sum_sq_dev images avg [] var = Inr var"
| "sum_sq_dev images (m0, m1, m2) (pos # rest) (v0, v1, v2) =
     bind_e (pixel_at images pos) (\<lambda>pixel.
       sum_sq_dev images (m0, m1, m2) rest
         (v0 + (channel pixel 0 - m0) ^ 2, v1 + (channel pixel 1 - m1) ^ 2, v2 + (channel pixel 2 - m2) ^ 2))"

text \<open>
  A double that may be NaN is a \<open>real option\<close>, \<open>None\<close> for NaN. With an empty point set
  the mean is \<^verbatim>\<open>0.0/0\<close>, a NaN in every channel; the variance loop then does not run, and
  \<^verbatim>\<open>sqrt(0.0 / -1)\<close> is zero. With one point the deviations are zero and \<^verbatim>\<open>0.0/0\<close> is NaN.
\<close>

definition cv_imgs_point_color_loc ::
  "(real \<Rightarrow> real \<Rightarrow> real) \<Rightarrow> Mat list \<Rightarrow> point \<Rightarrow> vec3 \<Rightarrow> error + vec3 option" where
  "cv_imgs_point_color_loc c_pow images point radius =
     bind_e (images_at images 0) (\<lambda>first.
       (let w = cols first; h = rows first; d = int (length images);
            point_set = local_point_set c_pow point radius (w, h, d);
            count = int (length point_set)
        in bind_e (sum_pixels images point_set (0, 0, 0)) (\<lambda>avg.
             case avg of (a0, a1, a2) \<Rightarrow>
               if count = 0 then Inr None
               else Inr (Some (a0 / real_of_int count, a1 / real_of_int count, a2 / real_of_int count)))))"

definition cv_imgs_point_var_loc ::
  "(real \<Rightarrow> real \<Rightarrow> real) \<Rightarrow> Mat list \<Rightarrow> point \<Rightarrow> vec3 \<Rightarrow> error + real option" where
  "cv_imgs_point_var_loc c_pow images point radius =
     bind_e (images_at images 0) (\<lambda>first.
       (let w = cols first; h = rows first; d = int (length images);
            point_set = local_point_set c_pow point radius (w, h, d);
            count = int (length point_set)
        in bind_e (sum_pixels images point_set (0, 0, 0)) (\<lambda>avg.
             case avg of (a0, a1, a2) \<Rightarrow>
               if count = 0 then Inr (Some 0)
               else
                 bind_e (sum_sq_dev images
                           (a0 / real_of_int count, a1 / real_of_int count, a2 / real_of_int count)
                           point_set (0, 0, 0)) (\<lambda>var.
                   case var of (v0, v1, v2) \<Rightarrow>
                     if count - 1 = 0 then Inr None
                     else Inr (Some (sqrt (v0 / real_of_int (count - 1))
                                   + sqrt (v1 / real_of_int (count - 1))
                                   + sqrt (v2 / real_of_int (count - 1))))))))"

subsection \<open>Histogram comparison\<close>

fun colors_of ::
  "(real \<Rightarrow> real \<Rightarrow> real) \<Rightarrow> Mat list \<Rightarrow> point list \<Rightarrow> error + vec3 option list" where
  "colors_of c_pow images [] = Inr []"
| "colors_of c_pow images (pt # rest) =
     bind_e (cv_imgs_point_color_loc c_pow images pt (0, 0, 0)) (\<lambda>color.
       bind_e (colors_of c_pow images rest) (\<lambda>colors. Inr (color # colors)))"

text \<open>\<^verbatim>\<open>int f = lab[channel]/8; freq(channel, f) = freq(channel, f) + 1\<close> on the 3 by 32
  matrix of counts; an index outside the matrix has no defined result.\<close>

definition bump :: "(nat \<Rightarrow> nat \<Rightarrow> int) \<Rightarrow> nat \<Rightarrow> real \<Rightarrow> error + (nat \<Rightarrow> nat \<Rightarrow> int)" where
  "bump freq ch v =
     (let f = c_int (v / 8)
      in if 0 \<le> f \<and> f < 32 then Inr (freq(ch := (freq ch)(nat f := freq ch (nat f) + 1)))
         else Inl Undefined)"

fun histogram_counts :: "vec3 option list \<Rightarrow> (nat \<Rightarrow> nat \<Rightarrow> int) \<Rightarrow> error + (nat \<Rightarrow> nat \<Rightarrow> int)" where
  "histogram_counts [] freq = Inr freq"
| "histogram_counts (lab # rest) freq =
     (case lab of
        None \<Rightarrow> Inl Undefined
      | Some (l0, l1, l2) \<Rightarrow>
          bind_e (bump freq 0 l0) (\<lambda>f0.
          bind_e (bump f0 1 l1) (\<lambda>f1.
          bind_e (bump f1 2 l2) (\<lambda>f2. histogram_counts rest f2))))"

definition hist :: "(nat \<Rightarrow> nat \<Rightarrow> int) \<Rightarrow> nat \<Rightarrow> nat \<Rightarrow> real" where
  "hist freq ch f =
     (real_of_int (freq ch f) + 0.0001) / (real_of_int (sum_list (map (freq ch) [0..<32])) + 0.0032)"

definition kl_channel :: "(nat \<Rightarrow> nat \<Rightarrow> real) \<Rightarrow> (nat \<Rightarrow> nat \<Rightarrow> real) \<Rightarrow> nat \<Rightarrow> real" where
  "kl_channel hist_1 hist_2 ch =
     (let D_1_2 = sum_list (map (\<lambda>f. hist_1 ch f * log 2 (hist_1 ch f / hist_2 ch f)) [0..<32]);
          D_2_1 = sum_list (map (\<lambda>f. hist_2 ch f * log 2 (hist_2 ch f / hist_1 ch f)) [0..<32])
      in (D_1_2 + D_2_1) / 2)"

definition compare_hist ::
  "(real \<Rightarrow> real \<Rightarrow> real) \<Rightarrow> Mat list \<Rightarrow> point list \<Rightarrow> point list \<Rightarrow> error + real" where
  "compare_hist c_pow images points_1 points_2 =
     bind_e (colors_of c_pow images points_1) (\<lambda>colors_1.
     bind_e (colors_of c_pow images points_2) (\<lambda>colors_2.
     bind_e (histogram_counts colors_1 (\<lambda>ch f. 0)) (\<lambda>freq_1.
     bind_e (histogram_counts colors_2 (\<lambda>ch f. 0)) (\<lambda>freq_2.
       (let hist_1 = hist freq_1; hist_2 = hist freq_2;
            kls0 = kl_channel hist_1 hist_2 0;
            kls1 = kl_channel hist_1 hist_2 1;
            kls2 = kl_channel hist_1 hist_2 2
        in Inr (sqrt ((kls0 * kls0 + kls1 * kls1 + kls2 * kls2) / 3)))))))"

subsection \<open>Ellipse fitting\<close>

text \<open>
  The linear algebra of \<^verbatim>\<open>fit_ellipse\<close> is Armadillo's: \<open>eig_gen_inv S C\<close> stands for
  \<^verbatim>\<open>arma::eig_gen(eigval, eigvec, inv(S) * C)\<close> and returns the eigenvalues and, in the
  same order, the eigenvectors. It is a parameter of the model. \<^verbatim>\<open>assert\<close> ends the
  program when its condition is false. The closed formulas are taken over the reals;
  the infinities and NaNs of a division by zero are outside the model.
\<close>

definition c_round :: "real \<Rightarrow> real" where
  "c_round r = (if 0 \<le> r then real_of_int \<lfloor>r + 1 / 2\<rfloor> else real_of_int \<lceil>r - 1 / 2\<rceil>)"

fun index_of_max :: "real list \<Rightarrow> nat \<Rightarrow> nat \<Rightarrow> real \<Rightarrow> nat" where
  "index_of_max [] i best m = best"
| "index_of_max (v # vs) i best m =
     (if v > m then index_of_max vs (Suc i) i v else index_of_max vs (Suc i) best m)"

definition fit_ellipse ::
  "(real list list \<Rightarrow> real list list \<Rightarrow> complex list \<times> complex list list) \<Rightarrow> point list \<Rightarrow>
   error + point \<times> vec3" where
  "fit_ellipse eig_gen_inv points =
     (if \<not> (length points \<ge> 5) then Inl InvalidArgument
      else
        (let frame = snd (snd (points ! 0));
             D = map (\<lambda>p. (let x = real_of_int (fst p); y = real_of_int (fst (snd p))
                            in [x * x, x * y, y * y, x, y, 1])) points;
             S = map (\<lambda>i. map (\<lambda>j. sum_list (map (\<lambda>row. row ! i * row ! j) D)) [0..<6]) [0..<6];
             C = map (\<lambda>i. map (\<lambda>j. if (i = 0 \<and> j = 2) \<or> (i = 2 \<and> j = 0) then 2
                                      else if i = 1 \<and> j = 1 then - 1 else 0) [0..<6]) [0..<(6::nat)];
             eig = eig_gen_inv S C;
             mags = map (\<lambda>v. \<bar>Re v\<bar>) (fst eig);
             n = index_of_max (tl mags) 1 0 (hd mags);
             a_vec = map Re (snd eig ! n);
             b = a_vec ! 1 / 2;
             c = a_vec ! 2;
             d = a_vec ! 3 / 2;
             f = a_vec ! 4 / 2;
             g = a_vec ! 5;
             a = a_vec ! 0;
             num = b * b - a * c;
             x0 = c_int ((c * d - b * f) / num);
             y0 = c_int ((a * f - b * d) / num);
             up = 2 * (a * f * f + c * d * d + g * b * b - 2 * b * d * f - a * c * g);
             down1 = (b * b - a * c) * ((c - a) * sqrt (1 + 4 * b * b / ((a - c) * (a - c))) - (c + a));
             down2 = (b * b - a * c) * ((a - c) * sqrt (1 + 4 * b * b / ((a - c) * (a - c))) - (c + a));
             res1 = sqrt (up / down1);
             res2 = sqrt (up / down2);
             angle = (if b = 0 then (if a > c then 0 else pi / 2)
                      else if a > c then arctan (2 * b / (a - c)) / 2
                      else pi / 2 + arctan (2 * b / (a - c)) / 2);
             angle' = 90 + (angle * 180 / pi)
         in Inr ((x0, y0, frame),
                 if res1 \<ge> res2 then (c_round res1, c_round res2, c_round angle')
                 else (c_round res2, c_round res1, c_round angle'))))"

subsection \<open>The spread score as the specification states it\<close>

text \<open>
  The specification's words for \<^verbatim>\<open>cv_imgs_point_var_loc\<close>, not the code. The
  neighbourhood of a point is the grid points of the box of half-width \<open>radius\<close> around
  the point, clipped to \<open>[0, bound - 1]\<close> on every axis, that satisfy the ellipsoid
  inequality \<open>\<Sum>((coord - point) / radius)\<^sup>2 \<le> 1\<close>, an axis of radius zero contributing 0;
  the inequality is one of real numbers. The per-channel sample variance is
  \<open>\<Sum>(x - mean)\<^sup>2 / (n - 1)\<close>, and the score is the sum of the per-channel sample
  standard deviations. \<open>pixel_value\<close> is the value of a channel at a position.
\<close>

definition in_ellipsoid :: "vec3 \<Rightarrow> point \<Rightarrow> vec3 \<Rightarrow> bool" where
  "in_ellipsoid pos point radius =
     (case pos of (c, r, i) \<Rightarrow> case point of (p0, p1, p2) \<Rightarrow> case radius of (r0, r1, r2) \<Rightarrow>
        (if r0 = 0 then 0 else ((c - real_of_int p0) / r0) ^ 2)
      + (if r1 = 0 then 0 else ((r - real_of_int p1) / r1) ^ 2)
      + (if r2 = 0 then 0 else ((i - real_of_int p2) / r2) ^ 2) \<le> 1)"

definition grid :: "int \<Rightarrow> real \<Rightarrow> int \<Rightarrow> int list" where
  "grid p r b = [max 0 \<lceil>real_of_int p - r\<rceil> .. min (b - 1) \<lfloor>real_of_int p + r\<rfloor>]"

definition neighbourhood :: "point \<Rightarrow> vec3 \<Rightarrow> point \<Rightarrow> vec3 list" where
  "neighbourhood point radius bound =
     (case point of (p0, p1, p2) \<Rightarrow> case radius of (r0, r1, r2) \<Rightarrow> case bound of (b0, b1, b2) \<Rightarrow>
        filter (\<lambda>pos. in_ellipsoid pos point radius)
          (concat (map (\<lambda>i. concat (map (\<lambda>r. map (\<lambda>c. (real_of_int c, real_of_int r, real_of_int i))
             (grid p0 r0 b0)) (grid p1 r1 b1))) (grid p2 r2 b2))))"

definition pixel_value :: "Mat list \<Rightarrow> vec3 \<Rightarrow> nat \<Rightarrow> real" where
  "pixel_value images pos ch =
     (case pos of (c, r, i) \<Rightarrow> channel (data (images ! nat (c_int i)) (c_int r) (c_int c)) ch)"

definition sample_std :: "real list \<Rightarrow> real" where
  "sample_std xs =
     sqrt (sum_list (map (\<lambda>x. (x - sum_list xs / real (length xs)) ^ 2) xs) / (real (length xs) - 1))"

text \<open>A position can be read when its indices are inside the frame sequence and the
  frame; a frame sequence is equally sized when every frame has the size of the first.\<close>

definition readable :: "Mat list \<Rightarrow> vec3 \<Rightarrow> bool" where
  "readable images pos =
     (case pos of (c, r, i) \<Rightarrow>
        0 \<le> c_int i \<and> c_int i < int (length images) \<and>
        0 \<le> c_int r \<and> c_int r < rows (images ! nat (c_int i)) \<and>
        0 \<le> c_int c \<and> c_int c < cols (images ! nat (c_int i)))"

definition equal_sized :: "Mat list \<Rightarrow> bool" where
  "equal_sized images = list_all (\<lambda>f. cols f = cols (images ! 0) \<and> rows f = rows (images ! 0)) images"

subsection \<open>Frames of the examples\<close>

text \<open>A frame of 5 columns and 3 rows whose brightness is 32 at columns 0, 2 and 4 of
  the last row and 0 elsewhere.\<close>

definition ridge_frame :: Mat where
  "ridge_frame = \<lparr>cols = 5, rows = 3,
     data = (\<lambda>r c. if r = 2 \<and> (c = 0 \<or> c = 2 \<or> c = 4) then (32, 0, 0) else (0, 0, 0))\<rparr>"

text \<open>A frame of 6 columns and 13 rows that is 78 in every channel at its last pixel
  (row 12, column 5) and 0 elsewhere, and the 78 positions of this frame, row by row.\<close>

definition corner_frame :: Mat where
  "corner_frame = \<lparr>cols = 6, rows = 13,
     data = (\<lambda>r c. if r = 12 \<and> c = 5 then (78, 78, 78) else (0, 0, 0))\<rparr>"

definition corner_positions :: "vec3 list" where
  "corner_positions =
     concat (map (\<lambda>r. map (\<lambda>c. (real_of_int c, real_of_int r, 0)) [0..5]) [0..12])"

text \<open>A \<^verbatim>\<open>pow\<close> that returns the correctly rounded square.\<close>

definition pow_sq :: "real \<Rightarrow> real \<Rightarrow> real" where
  "pow_sq x y = fl (x * x)"

section \<open>The stepping loops\<close>

text \<open>Points are only ever appended, and every appended point passed the test.\<close>

lemma drive_loop_kept:
  "drive_loop keep mk (ai, bi, ci) (da2, db2, dc2) n (a, b, c, e1, e2) pts = (q, pts') \<Longrightarrow>
   \<exists>new. pts' = pts @ new \<and> (\<forall>p \<in> set new. keep p)"
proof (induction n arbitrary: a b c e1 e2 pts)
  case 0
  then show ?case by simp
next
  case (Suc n)
  define b1 where "b1 = (if e1 > 0 then b + bi else b)"
  define c1 where "c1 = (if e2 > 0 then c + ci else c)"
  define f1 where "f1 = (if e1 > 0 then e1 - da2 else e1) + db2"
  define f2 where "f2 = (if e2 > 0 then e2 - da2 else e2) + dc2"
  show ?case
  proof (cases "keep (mk (a + ai) b1 c1)")
    case False
    then have "pts' = pts"
      using Suc.prems(1) by (simp add: Let_def b1_def c1_def)
    then show ?thesis by simp
  next
    case True
    then have rec: "drive_loop keep mk (ai, bi, ci) (da2, db2, dc2) n (a + ai, b1, c1, f1, f2)
                 (pts @ [mk (a + ai) b1 c1]) = (q, pts')"
      using Suc.prems(1) by (simp add: Let_def b1_def c1_def f1_def f2_def)
    from Suc.IH[OF rec] obtain new where "pts' = (pts @ [mk (a + ai) b1 c1]) @ new" "\<forall>p \<in> set new. keep p"
      by blast
    then show ?thesis using True by (intro exI[of _ "mk (a + ai) b1 c1 # new"]) simp
  qed
qed

lemma bres_arith:
  fixes A m d :: int
  assumes "0 < A" "- (2 * A) < A * m" "A * m \<le> 0" "m = 2 * d - 1"
  shows "d = 0"
proof -
  have "m \<le> 0" using assms(1,3) by (simp add: mult_le_0_iff)
  moreover have "0 < A * (m + 2)" using assms(2) by (simp add: algebra_simps)
  then have "0 < m + 2" using assms(1) by (simp add: zero_less_mult_iff)
  ultimately show ?thesis using assms(4) by arith
qed

lemma err_final:
  fixes A B k e i :: int
  assumes "0 < A" "i = A" "e = 2 * B * (i + 1) - A - 2 * A * k" "- (2 * A) + 2 * B < e" "e \<le> 2 * B"
  shows "B = k"
proof -
  have eq: "e - 2 * B = A * (2 * (B - k) - 1)"
    using assms(2,3) by (simp add: algebra_simps)
  have "B - k = 0"
    by (rule bres_arith[of A "2 * (B - k) - 1"]) (use assms eq in \<open>auto simp: algebra_simps\<close>)
  then show ?thesis by simp
qed

lemma drive_loop_complete:
  fixes A B C :: int
  assumes "0 < A"
  shows "drive_loop keep mk (ai, bi, ci) (2 * A, 2 * B, 2 * C) n (a, b, c, e1, e2) pts = ((a', b', c'), pts') \<Longrightarrow>
     i + int n = A \<Longrightarrow>
     e1 = 2 * B * (i + 1) - A - 2 * A * k1 \<Longrightarrow> - (2 * A) + 2 * B < e1 \<Longrightarrow> e1 \<le> 2 * B \<Longrightarrow>
     e2 = 2 * C * (i + 1) - A - 2 * A * k2 \<Longrightarrow> - (2 * A) + 2 * C < e2 \<Longrightarrow> e2 \<le> 2 * C \<Longrightarrow>
     0 \<le> B \<Longrightarrow> B \<le> A \<Longrightarrow> 0 \<le> C \<Longrightarrow> C \<le> A \<Longrightarrow>
     (n > 0 \<Longrightarrow> keep (mk a' b' c')) \<Longrightarrow>
     a' = a + int n * ai \<and> b' = b + (B - k1) * bi \<and> c' = c + (C - k2) * ci"
proof (induction n arbitrary: a b c e1 e2 pts i k1 k2)
  case 0
  have "B = k1" using err_final[OF assms, of i e1 B k1] 0 by simp
  moreover have "C = k2" using err_final[OF assms, of i e2 C k2] 0 by simp
  ultimately show ?case using 0 by simp
next
  case (Suc n)
  define b1 where "b1 = (if e1 > 0 then b + bi else b)"
  define c1 where "c1 = (if e2 > 0 then c + ci else c)"
  define k1' where "k1' = (if e1 > 0 then k1 + 1 else k1)"
  define k2' where "k2' = (if e2 > 0 then k2 + 1 else k2)"
  define f1 where "f1 = (if e1 > 0 then e1 - 2 * A else e1) + 2 * B"
  define f2 where "f2 = (if e2 > 0 then e2 - 2 * A else e2) + 2 * C"
  have kp: "keep (mk (a + ai) b1 c1)"
  proof (rule ccontr)
    assume "\<not> keep (mk (a + ai) b1 c1)"
    then have "(a', b', c') = (a + ai, b1, c1)"
      using Suc.prems(1) by (simp add: Let_def b1_def c1_def)
    then show False using Suc.prems(13) \<open>\<not> keep (mk (a + ai) b1 c1)\<close> by simp
  qed
  then have rec: "drive_loop keep mk (ai, bi, ci) (2 * A, 2 * B, 2 * C) n (a + ai, b1, c1, f1, f2)
                 (pts @ [mk (a + ai) b1 c1]) = ((a', b', c'), pts')"
    using Suc.prems(1) by (simp add: Let_def b1_def c1_def f1_def f2_def)
  have i1: "(i + 1) + int n = A" using Suc.prems(2) by simp
  have f1a: "f1 = 2 * B * ((i + 1) + 1) - A - 2 * A * k1'"
    using Suc.prems(3) by (simp add: f1_def k1'_def algebra_simps)
  have f1b: "- (2 * A) + 2 * B < f1" "f1 \<le> 2 * B"
    using Suc.prems(4,5,9,10) by (auto simp: f1_def)
  have f2a: "f2 = 2 * C * ((i + 1) + 1) - A - 2 * A * k2'"
    using Suc.prems(6) by (simp add: f2_def k2'_def algebra_simps)
  have f2b: "- (2 * A) + 2 * C < f2" "f2 \<le> 2 * C"
    using Suc.prems(7,8,11,12) by (auto simp: f2_def)
  have kk: "n > 0 \<Longrightarrow> keep (mk a' b' c')" using Suc.prems(13) by simp
  have "a' = (a + ai) + int n * ai \<and> b' = b1 + (B - k1') * bi \<and> c' = c1 + (C - k2') * ci"
    by (rule Suc.IH[OF rec i1 f1a f1b f2a f2b Suc.prems(9,10,11,12) kk])
  then show ?case
    by (cases "e1 > 0"; cases "e2 > 0"; simp add: b1_def c1_def k1'_def k2'_def algebra_simps)
qed

lemma drive_loop_zero [simp]:
  "drive_loop keep mk incs ds 0 st pts = ((fst st, fst (snd st), fst (snd (snd st))), pts)"
  by (cases st) auto

lemma drive_loop_advance:
  "drive_loop keep mk (ai, bi, ci) ds n (a, b, c, e1, e2) pts = ((a', b', c'), pts') \<Longrightarrow> n > 0 \<Longrightarrow>
   \<exists>k. 1 \<le> k \<and> k \<le> int n \<and> a' = a + k * ai"
proof (induction n arbitrary: a b c e1 e2 pts)
  case 0
  then show ?case by simp
next
  case (Suc n)
  obtain da2 db2 dc2 where ds: "ds = (da2, db2, dc2)" by (cases ds) auto
  define b1 where "b1 = (if e1 > 0 then b + bi else b)"
  define c1 where "c1 = (if e2 > 0 then c + ci else c)"
  define f1 where "f1 = (if e1 > 0 then e1 - da2 else e1) + db2"
  define f2 where "f2 = (if e2 > 0 then e2 - da2 else e2) + dc2"
  show ?case
  proof (cases "keep (mk (a + ai) b1 c1)")
    case False
    then have "(a', b', c') = (a + ai, b1, c1)"
      using Suc.prems(1) by (simp add: ds Let_def b1_def c1_def)
    then show ?thesis by (intro exI[of _ 1]) simp
  next
    case True
    then have rec: "drive_loop keep mk (ai, bi, ci) ds n (a + ai, b1, c1, f1, f2)
                 (pts @ [mk (a + ai) b1 c1]) = ((a', b', c'), pts')"
      using Suc.prems(1) by (simp add: ds Let_def b1_def c1_def f1_def f2_def)
    show ?thesis
    proof (cases "n = 0")
      case True
      then show ?thesis using rec by (intro exI[of _ 1]) simp
    next
      case False
      then obtain k where "1 \<le> k" "k \<le> int n" "a' = (a + ai) + k * ai"
        using Suc.IH[OF rec] by auto
      then show ?thesis by (intro exI[of _ "k + 1"]) (simp add: algebra_simps)
    qed
  qed
qed

subsection \<open>Segments: one pass of the loop body ends the \<^verbatim>\<open>while\<close> loop\<close>

lemma abs_sign_mult: "\<bar>d\<bar> * (if d > 0 then 1 else - 1) = (d::int)"
  by simp

lemma stepping_cases:
  "stepping keep inc (Adx, Ady, Adz) s =
     (if Adx \<ge> Ady \<and> Adx \<ge> Adz then loop_x keep inc (Adx, Ady, Adz) s
      else if Ady > Adx \<and> Ady \<ge> Adz then loop_y keep inc (Adx, Ady, Adz) s
      else loop_z keep inc (Adx, Ady, Adz) s)"
  by (auto simp: stepping_def Let_def)

lemma stepping_kept:
  assumes "stepping keep inc Ad (p, re) = (p', re')"
  shows "\<exists>new. re' = re @ new \<and> (\<forall>q \<in> set new. keep q)"
proof -
  obtain Adx Ady Adz where Ad: "Ad = (Adx, Ady, Adz)" by (cases Ad) auto
  obtain xi yi zi where inc: "inc = (xi, yi, zi)" by (cases inc) auto
  obtain x y z where p: "p = (x, y, z)" by (cases p) auto
  show ?thesis
    using assms unfolding Ad stepping_cases inc p
    by (auto simp: loop_x_def loop_y_def loop_z_def Let_def split: if_splits prod.splits
             dest: drive_loop_kept)
qed

lemma stepping_complete:
  fixes Adx Ady Adz :: int
  assumes nn: "0 \<le> Adx" "0 \<le> Ady" "0 \<le> Adz"
    and nz: "\<not> (Adx = 0 \<and> Ady = 0 \<and> Adz = 0)"
    and st: "stepping keep (xi, yi, zi) (Adx, Ady, Adz) ((x, y, z), re) = (p', re')"
    and keep: "keep p'"
  shows "p' = (x + Adx * xi, y + Ady * yi, z + Adz * zi)"
proof -
  consider (X) "Adx \<ge> Ady" "Adx \<ge> Adz"
    | (Y) "Ady > Adx" "Ady \<ge> Adz"
    | (Z) "Adz > Adx" "Adz > Ady"
    by linarith
  then show ?thesis
  proof cases
    case X
    then have A: "0 < Adx" using nz nn by auto
    obtain a b c where p': "p' = (a, b, c)" by (cases p') auto
    have dl: "drive_loop keep (\<lambda>a b c. (a, b, c)) (xi, yi, zi) (2 * Adx, 2 * Ady, 2 * Adz)
               (nat Adx) (x, y, z, 2 * Ady - Adx, 2 * Adz - Adx) re = ((a, b, c), re')"
      using st X unfolding stepping_cases p'
      by (simp add: loop_x_def Let_def mult.commute split: prod.splits)
    have "a = x + int (nat Adx) * xi \<and> b = y + (Ady - 0) * yi \<and> c = z + (Adz - 0) * zi"
      by (rule drive_loop_complete[OF A dl, of 0]) (use X A nn keep p' in auto)
    then show ?thesis unfolding p' using A by simp
  next
    case Y
    then have A: "0 < Ady" using nn by auto
    obtain a b c where p': "p' = (b, a, c)" by (cases p') auto
    have dl: "drive_loop keep (\<lambda>a b c. (b, a, c)) (yi, xi, zi) (2 * Ady, 2 * Adx, 2 * Adz)
               (nat Ady) (y, x, z, 2 * Adx - Ady, 2 * Adz - Ady) re = ((a, b, c), re')"
      using st Y unfolding stepping_cases p'
      by (simp add: loop_y_def Let_def mult.commute split: prod.splits)
    have "a = y + int (nat Ady) * yi \<and> b = x + (Adx - 0) * xi \<and> c = z + (Adz - 0) * zi"
      by (rule drive_loop_complete[OF A dl, of 0]) (use Y A nn keep p' in auto)
    then show ?thesis unfolding p' using A by simp
  next
    case Z
    then have A: "0 < Adz" using nn by auto
    obtain a b c where p': "p' = (c, b, a)" by (cases p') auto
    have dl: "drive_loop keep (\<lambda>a b c. (c, b, a)) (zi, yi, xi) (2 * Adz, 2 * Ady, 2 * Adx)
               (nat Adz) (z, y, x, 2 * Ady - Adz, 2 * Adx - Adz) re = ((a, b, c), re')"
      using st Z unfolding stepping_cases p'
      by (simp add: loop_z_def Let_def mult.commute split: prod.splits)
    have "a = z + int (nat Adz) * zi \<and> b = y + (Ady - 0) * yi \<and> c = x + (Adx - 0) * xi"
      by (rule drive_loop_complete[OF A dl, of 0]) (use Z A nn keep p' in auto)
    then show ?thesis unfolding p' using A by simp
  qed
qed

lemma seg_while_once:
  fixes Adx Ady Adz :: int
  assumes nn: "0 \<le> Adx" "0 \<le> Ady" "0 \<le> Adz"
    and nz: "\<not> (Adx = 0 \<and> Ady = 0 \<and> Adz = 0)"
    and e: "end2 = (x + Adx * xi, y + Ady * yi, z + Adz * zi)"
    and inside: "\<not> out_of_canvas (x, y, z) bound" "(x, y, z) \<noteq> end2"
  shows "seg_while bound end2 (xi, yi, zi) (Adx, Ady, Adz) ((x, y, z), re) =
         Some (stepping (\<lambda>p. \<not> out_of_canvas p bound \<and> \<not> (p = end2)) (xi, yi, zi) (Adx, Ady, Adz) ((x, y, z), re))"
proof -
  let ?keep = "\<lambda>p. \<not> out_of_canvas p bound \<and> \<not> (p = end2)"
  obtain p' re' where s: "stepping ?keep (xi, yi, zi) (Adx, Ady, Adz) ((x, y, z), re) = (p', re')"
    by (cases "stepping ?keep (xi, yi, zi) (Adx, Ady, Adz) ((x, y, z), re)") auto
  have "\<not> ?keep p'"
  proof
    assume k: "?keep p'"
    have "p' = end2" unfolding e by (rule stepping_complete[OF nn nz s k])
    with k show False by simp
  qed
  then have stop: "seg_while bound end2 (xi, yi, zi) (Adx, Ady, Adz) (p', re') = Some (p', re')"
    by (subst seg_while.simps) auto
  show ?thesis
    by (subst seg_while.simps) (use inside s stop in simp)
qed

lemma SWAP_swaps [simp]: "SWAP a b = (b, a)"
  by (simp add: SWAP_def Let_def)

lemma get_line_seg_points_total:
  assumes ne: "start \<noteq> endp" and one: "\<not> out_of_canvas start bound \<or> \<not> out_of_canvas endp bound"
  shows "\<exists>mid. get_line_seg_points start endp bound =
           Some ((if out_of_canvas start bound then endp else start) # mid @
                 [if out_of_canvas start bound then start else endp]) \<and>
         (\<forall>q \<in> set mid. \<not> out_of_canvas q bound \<and>
             q \<noteq> (if out_of_canvas start bound then start else endp))"
proof -
  obtain x y z where s: "start = (x, y, z)" by (cases start) auto
  obtain x2 y2 z2 where e: "endp = (x2, y2, z2)" by (cases endp) auto
  define s1 where "s1 = (if out_of_canvas start bound then endp else start)"
  define e1 where "e1 = (if out_of_canvas start bound then start else endp)"
  obtain u v w where s1: "s1 = (u, v, w)" by (cases s1) auto
  obtain u2 v2 w2 where e1: "e1 = (u2, v2, w2)" by (cases e1) auto
  let ?xi = "if u2 - u > 0 then 1 else - 1 :: int"
  let ?yi = "if v2 - v > 0 then 1 else - 1 :: int"
  let ?zi = "if w2 - w > 0 then 1 else - 1 :: int"
  let ?keep = "\<lambda>p. \<not> out_of_canvas p bound \<and> \<not> (p = e1)"
  have in1: "\<not> out_of_canvas s1 bound" using one by (auto simp: s1_def)
  have ne1: "s1 \<noteq> e1" using ne by (auto simp: s1_def e1_def)
  have unf: "get_line_seg_points start endp bound =
        (case seg_while bound (u2, v2, w2) (?xi, ?yi, ?zi) (\<bar>u2 - u\<bar>, \<bar>v2 - v\<bar>, \<bar>w2 - w\<bar>) ((u, v, w), [(u, v, w)]) of
           None \<Rightarrow> None | Some (p, re) \<Rightarrow> Some (re @ [(u2, v2, w2)]))"
  proof (cases "out_of_canvas start bound")
    case True
    then have "\<not> out_of_canvas endp bound" using one by simp
    moreover have "(x2, y2, z2) = (u, v, w)" "(x, y, z) = (u2, v2, w2)"
      using True s1 e1 s e by (simp_all add: s1_def e1_def)
    ultimately show ?thesis
      using True ne unfolding s e get_line_seg_points_def Let_def SWAP_swaps
      by (auto cong: option.case_cong prod.case_cong)
  next
    case False
    moreover have "(x2, y2, z2) = (u2, v2, w2)" "(x, y, z) = (u, v, w)"
      using False s1 e1 s e by (simp_all add: s1_def e1_def)
    ultimately show ?thesis
      using ne unfolding s e get_line_seg_points_def Let_def SWAP_swaps
      by (auto cong: option.case_cong prod.case_cong)
  qed
  have e2: "(u2, v2, w2) = (u + \<bar>u2 - u\<bar> * ?xi, v + \<bar>v2 - v\<bar> * ?yi, w + \<bar>w2 - w\<bar> * ?zi)"
    by auto
  have nz: "\<not> (\<bar>u2 - u\<bar> = 0 \<and> \<bar>v2 - v\<bar> = 0 \<and> \<bar>w2 - w\<bar> = 0)" using ne1 s1 e1 by auto
  have sw: "seg_while bound (u2, v2, w2) (?xi, ?yi, ?zi) (\<bar>u2 - u\<bar>, \<bar>v2 - v\<bar>, \<bar>w2 - w\<bar>) ((u, v, w), [(u, v, w)]) =
        Some (stepping (\<lambda>p. \<not> out_of_canvas p bound \<and> \<not> (p = (u2, v2, w2))) (?xi, ?yi, ?zi)
               (\<bar>u2 - u\<bar>, \<bar>v2 - v\<bar>, \<bar>w2 - w\<bar>) ((u, v, w), [(u, v, w)]))"
    by (rule seg_while_once[OF _ _ _ nz e2]) (use in1 ne1 s1 e1 in auto)
  obtain p' re' where st: "stepping (\<lambda>p. \<not> out_of_canvas p bound \<and> \<not> (p = (u2, v2, w2))) (?xi, ?yi, ?zi)
               (\<bar>u2 - u\<bar>, \<bar>v2 - v\<bar>, \<bar>w2 - w\<bar>) ((u, v, w), [(u, v, w)]) = (p', re')"
    by (meson surj_pair)
  from stepping_kept[OF st] obtain mid where mid: "re' = [(u, v, w)] @ mid"
      "\<forall>q \<in> set mid. \<not> out_of_canvas q bound \<and> q \<noteq> (u2, v2, w2)" by auto
  have res: "get_line_seg_points start endp bound = Some (s1 # mid @ [e1])"
    unfolding unf sw st using mid s1 e1 by simp
  show ?thesis
    using res mid(2) unfolding e1[symmetric] unfolding s1_def e1_def
    by (intro exI[of _ mid]) simp
qed

subsection \<open>What the rasterizers return\<close>

lemma bresenham_kept:
  assumes "bresenham current direction inc bound points = Some r"
  shows "\<exists>new. r = points @ new \<and> (\<forall>q \<in> set new. \<not> out_of_canvas q bound)"
proof (rule bresenham.raw_induct[OF _ assms], goal_cases)
  case (1 bresenham' current direction inc bound points r)
  let ?Ad = "(\<bar>c_int (fst direction)\<bar>, \<bar>c_int (fst (snd direction))\<bar>, \<bar>c_int (snd (snd direction))\<bar>)"
  obtain p' pts' where st: "stepping (\<lambda>p. \<not> out_of_canvas p bound) inc ?Ad (current, points) = (p', pts')"
    by (meson surj_pair)
  from stepping_kept[OF st] obtain n1 where n1: "pts' = points @ n1" "\<forall>q \<in> set n1. \<not> out_of_canvas q bound"
    by blast
  show ?case
  proof (cases "out_of_canvas p' bound")
    case True
    then have "r = pts'" using 1(2) st by simp
    then show ?thesis using n1 by blast
  next
    case False
    then have "bresenham' p' direction inc bound pts' = Some r" using 1(2) st by simp
    from 1(1)[OF this] obtain n2 where "r = pts' @ n2" "\<forall>q \<in> set n2. \<not> out_of_canvas q bound"
      by blast
    then show ?thesis using n1 by (intro exI[of _ "n1 @ n2"]) auto
  qed
qed

lemma get_line_points_shape:
  assumes "get_line_points point direction bound = Some r"
    and "direction \<noteq> (0, 0, 0)"
  shows "\<exists>neg pos. r = rev neg @ point # pos \<and>
           (\<forall>q \<in> set neg \<union> set pos. \<not> out_of_canvas q bound)"
proof -
  obtain d0 d1 d2 where d: "direction = (d0, d1, d2)" by (cases direction) auto
  let ?inc = "(if d0 > 0 then 1 else - 1, if d1 > 0 then 1 else - 1, if d2 > 0 then 1 else - 1) :: int \<times> int \<times> int"
  let ?ninc = "(- 1 * (if d0 > 0 then 1 else - 1), - 1 * (if d1 > 0 then 1 else - 1),
                - 1 * (if d2 > 0 then 1 else - 1)) :: int \<times> int \<times> int"
  have nz: "\<not> (d0 = 0 \<and> d1 = 0 \<and> d2 = 0)" using assms(2) d by simp
  from assms(1) nz obtain re re' where
    1: "bresenham point direction ?inc bound [] = Some re" and
    2: "bresenham point direction ?ninc bound (rev re @ [point]) = Some re'" and
    3: "r = rev re'"
    unfolding get_line_points_def d Let_def
    by (auto split: option.splits if_splits)
  from bresenham_kept[OF 1] have pos: "\<forall>q \<in> set re. \<not> out_of_canvas q bound" by auto
  from bresenham_kept[OF 2] obtain neg where neg: "re' = (rev re @ [point]) @ neg"
     "\<forall>q \<in> set neg. \<not> out_of_canvas q bound" by blast
  show ?thesis using 3 neg pos by (intro exI[of _ neg] exI[of _ re]) auto
qed

lemma get_line_seg_points_cases:
  assumes "get_line_seg_points start endp bound = Some r"
  shows "r = [] \<or> (\<exists>mid. r = (if out_of_canvas start bound then endp else start) # mid @
                 [if out_of_canvas start bound then start else endp] \<and>
              \<not> out_of_canvas (if out_of_canvas start bound then endp else start) bound \<and>
              (\<forall>q \<in> set mid. \<not> out_of_canvas q bound))"
proof (cases "start \<noteq> endp \<and> (\<not> out_of_canvas start bound \<or> \<not> out_of_canvas endp bound)")
  case True
  from get_line_seg_points_total[of start endp bound] True assms show ?thesis
    by (auto split: if_splits)
next
  case False
  then have "get_line_seg_points start endp bound = Some []"
    by (cases start; cases endp) (auto simp: get_line_seg_points_def)
  then show ?thesis using assms by simp
qed

lemma seg_points_butlast:
  assumes "get_line_seg_points start endp bound = Some r"
  shows "\<forall>q \<in> set (butlast r). \<not> out_of_canvas q bound"
  using get_line_seg_points_cases[OF assms]
  by (auto simp: butlast_append split: if_splits)

lemma seg_points_or_endpoint:
  assumes "get_line_seg_points start endp bound = Some r" "q \<in> set r" "out_of_canvas q bound"
  shows "q = start \<or> q = endp"
  using get_line_seg_points_cases[OF assms(1)] assms(2,3)
  by (auto split: if_splits)

lemma ellipse_segs_points:
  "ellipse_segs p0 v cz bound re = Some r \<Longrightarrow> q \<in> set r \<Longrightarrow> out_of_canvas q bound \<Longrightarrow>
   q \<in> set re \<or> (\<exists>u \<in> set (p0 # v). q = (fst u, snd u, cz))"
proof (induction v arbitrary: p0 re)
  case Nil
  then show ?case by simp
next
  case (Cons p v)
  from Cons.prems(1) obtain t where t: "get_line_seg_points (fst p0, snd p0, cz) (fst p, snd p, cz) bound = Some t"
    and rest: "ellipse_segs p v cz bound (re @ t) = Some r"
    by (auto split: option.splits)
  from Cons.IH[OF rest Cons.prems(2,3)] consider "q \<in> set re" | "q \<in> set t"
    | "\<exists>u \<in> set (p # v). q = (fst u, snd u, cz)" by auto
  then show ?case
  proof cases
    case 2
    from seg_points_or_endpoint[OF t 2 Cons.prems(3)] show ?thesis by auto
  qed auto
qed


text \<open>The segment of the specification's example.\<close>

lemma get_line_seg_points_example:
  "get_line_seg_points (0, 0, 0) (4, 0, 0) (10, 10, 10) =
     Some [(0, 0, 0), (1, 0, 0), (2, 0, 0), (3, 0, 0), (4, 0, 0)]"
  by code_simp

subsection \<open>A direction that truncates to zero\<close>

lemma stepping_zero: "stepping keep inc (0, 0, 0) s = s"
  by (cases s; cases inc) (auto simp: stepping_cases loop_x_def)

lemma bresenham_never_returns:
  assumes z: "c_int (fst direction) = 0" "c_int (fst (snd direction)) = 0" "c_int (snd (snd direction)) = 0"
    and inside: "\<not> out_of_canvas current bound"
  shows "bresenham current direction inc bound points = None"
proof (rule ccontr)
  assume "bresenham current direction inc bound points \<noteq> None"
  then obtain r where r: "bresenham current direction inc bound points = Some r"
    by auto
  have "\<not> (c_int (fst direction) = 0 \<and> c_int (fst (snd direction)) = 0 \<and> c_int (snd (snd direction)) = 0 \<and>
           \<not> out_of_canvas current bound)"
  proof (rule bresenham.raw_induct[OF _ r,
        where P = "\<lambda>current direction inc bound points r.
           \<not> (c_int (fst direction) = 0 \<and> c_int (fst (snd direction)) = 0 \<and> c_int (snd (snd direction)) = 0 \<and>
              \<not> out_of_canvas current bound)"], goal_cases)
    case (1 bresenham' current direction inc bound points r)
    show ?case
    proof
      assume a: "c_int (fst direction) = 0 \<and> c_int (fst (snd direction)) = 0 \<and>
                 c_int (snd (snd direction)) = 0 \<and> \<not> out_of_canvas current bound"
      then have "bresenham' current direction inc bound points = Some r"
        using 1(2) by (simp add: stepping_zero)
      from 1(1)[OF this] a show False by simp
    qed
  qed
  with z inside show False by simp
qed

subsection \<open>A direction that does not truncate to zero: the line is returned, in order\<close>

text \<open>
  Along the driving axis every pushed point is one increment further than the one
  before it, a ray ends when it leaves the canvas, and the line is the reversed
  negative ray, the seed and the positive ray.
\<close>

lemma drive_loop_run:
  assumes sel: "\<And>a b c. sel (mk a b c) = a"
  shows "drive_loop keep mk (ai, bi, ci) (da2, db2, dc2) n (a, b, c, e1, e2) pts = ((a', b', c'), pts') \<Longrightarrow>
     \<exists>new. pts' = pts @ new \<and> (\<forall>q \<in> set new. keep q) \<and>
           (\<forall>j < length new. sel (new ! j) = a + (int j + 1) * ai) \<and>
           (keep (mk a' b' c') \<longrightarrow> length new = n \<and> a' = a + int n * ai)"
proof (induction n arbitrary: a b c e1 e2 pts)
  case 0
  then show ?case by simp
next
  case (Suc n)
  define b1 where "b1 = (if e1 > 0 then b + bi else b)"
  define c1 where "c1 = (if e2 > 0 then c + ci else c)"
  define f1 where "f1 = (if e1 > 0 then e1 - da2 else e1) + db2"
  define f2 where "f2 = (if e2 > 0 then e2 - da2 else e2) + dc2"
  show ?case
  proof (cases "keep (mk (a + ai) b1 c1)")
    case False
    then have "pts' = pts" "(a', b', c') = (a + ai, b1, c1)"
      using Suc.prems(1) by (simp_all add: Let_def b1_def c1_def)
    then show ?thesis using False by (intro exI[of _ "[]"]) simp
  next
    case True
    then have rec: "drive_loop keep mk (ai, bi, ci) (da2, db2, dc2) n (a + ai, b1, c1, f1, f2)
                 (pts @ [mk (a + ai) b1 c1]) = ((a', b', c'), pts')"
      using Suc.prems(1) by (simp add: Let_def b1_def c1_def f1_def f2_def)
    from Suc.IH[OF rec] obtain new where new: "pts' = (pts @ [mk (a + ai) b1 c1]) @ new"
      "\<forall>q \<in> set new. keep q"
      "\<forall>j < length new. sel (new ! j) = (a + ai) + (int j + 1) * ai"
      "keep (mk a' b' c') \<longrightarrow> length new = n \<and> a' = (a + ai) + int n * ai"
      by blast
    have ord: "\<forall>j < length (mk (a + ai) b1 c1 # new). sel ((mk (a + ai) b1 c1 # new) ! j) = a + (int j + 1) * ai"
    proof (intro allI impI)
      fix j assume j: "j < length (mk (a + ai) b1 c1 # new)"
      show "sel ((mk (a + ai) b1 c1 # new) ! j) = a + (int j + 1) * ai"
      proof (cases j)
        case 0
        then show ?thesis by (simp add: sel)
      next
        case (Suc k)
        then have "k < length new" using j by simp
        then show ?thesis using new(3) Suc by (simp add: algebra_simps)
      qed
    qed
    show ?thesis
      using new(1,2,4) True ord
      by (intro exI[of _ "mk (a + ai) b1 c1 # new"]) (simp add: algebra_simps)
  qed
qed

lemma stepping_run:
  fixes Adx Ady Adz :: int
  assumes nn: "0 \<le> Adx" "0 \<le> Ady" "0 \<le> Adz"
    and st: "stepping keep inc (Adx, Ady, Adz) (p, pts) = (p', pts')"
  shows "\<exists>new. pts' = pts @ new \<and> (\<forall>q \<in> set new. keep q) \<and>
           (\<forall>j < length new. driving (Adx, Ady, Adz) (new ! j) =
                driving (Adx, Ady, Adz) p + (int j + 1) * driving (Adx, Ady, Adz) inc) \<and>
           (keep p' \<longrightarrow> int (length new) = driving (Adx, Ady, Adz) (Adx, Ady, Adz) \<and>
                driving (Adx, Ady, Adz) p' = driving (Adx, Ady, Adz) p
                   + driving (Adx, Ady, Adz) (Adx, Ady, Adz) * driving (Adx, Ady, Adz) inc)"
proof -
  obtain xi yi zi where inc: "inc = (xi, yi, zi)" by (cases inc) auto
  obtain x y z where p: "p = (x, y, z)" by (cases p) auto
  consider (X) "Adx \<ge> Ady" "Adx \<ge> Adz"
    | (Y) "Ady > Adx" "Ady \<ge> Adz"
    | (Z) "Adz > Adx" "Adz > Ady"
    by linarith
  then show ?thesis
  proof cases
    case X
    obtain a b c where p': "p' = (a, b, c)" by (cases p') auto
    have dl: "drive_loop keep (\<lambda>a b c. (a, b, c)) (xi, yi, zi) (Adx * 2, Ady * 2, Adz * 2)
               (nat Adx) (x, y, z, Ady * 2 - Adx, Adz * 2 - Adx) pts = ((a, b, c), pts')"
      using st X unfolding stepping_cases p' inc p
      by (simp add: loop_x_def Let_def split: prod.splits)
    have d: "\<And>t. driving (Adx, Ady, Adz) t = fst t" using X by (auto simp: driving_def split: prod.splits)
    from drive_loop_run[where sel = fst, OF _ dl] nn(1) show ?thesis
      unfolding d p p' inc by (fastforce simp: mult.commute)
  next
    case Y
    obtain a b c where p': "p' = (b, a, c)" by (cases p') auto
    have dl: "drive_loop keep (\<lambda>a b c. (b, a, c)) (yi, xi, zi) (Ady * 2, Adx * 2, Adz * 2)
               (nat Ady) (y, x, z, Adx * 2 - Ady, Adz * 2 - Ady) pts = ((a, b, c), pts')"
      using st Y unfolding stepping_cases p' inc p
      by (simp add: loop_y_def Let_def split: prod.splits)
    have d: "\<And>t. driving (Adx, Ady, Adz) t = fst (snd t)" using Y by (auto simp: driving_def split: prod.splits)
    from drive_loop_run[where sel = "\<lambda>t. fst (snd t)", OF _ dl] nn(2) show ?thesis
      unfolding d p p' inc by (fastforce simp: mult.commute)
  next
    case Z
    obtain a b c where p': "p' = (c, b, a)" by (cases p') auto
    have dl: "drive_loop keep (\<lambda>a b c. (c, b, a)) (zi, yi, xi) (Adz * 2, Ady * 2, Adx * 2)
               (nat Adz) (z, y, x, Ady * 2 - Adz, Adx * 2 - Adz) pts = ((a, b, c), pts')"
      using st Z unfolding stepping_cases p' inc p
      by (simp add: loop_z_def Let_def split: prod.splits)
    have d: "\<And>t. driving (Adx, Ady, Adz) t = snd (snd t)" using Z by (auto simp: driving_def split: prod.splits)
    from drive_loop_run[where sel = "\<lambda>t. snd (snd t)", OF _ dl] nn(3) show ?thesis
      unfolding d p p' inc by (fastforce simp: mult.commute)
  qed
qed

lemma driving_self_pos:
  "0 \<le> Adx \<Longrightarrow> 0 \<le> Ady \<Longrightarrow> 0 \<le> Adz \<Longrightarrow> (Adx, Ady, Adz) \<noteq> (0, 0, 0) \<Longrightarrow>
   0 < driving (Adx, Ady, Adz) (Adx, Ady, Adz)"
  by (auto simp: driving_def)

lemma driving_in_canvas:
  "\<not> out_of_canvas p bound \<Longrightarrow> 0 \<le> driving Ad p \<and> driving Ad p \<le> driving Ad bound - 1"
  by (cases p; cases bound; cases Ad) (auto simp: out_of_canvas_def driving_def split: if_splits)

lemma bresenham_returns:
  fixes Adx Ady Adz :: int
  assumes Ad: "(Adx, Ady, Adz) = (\<bar>c_int (fst direction)\<bar>, \<bar>c_int (fst (snd direction))\<bar>, \<bar>c_int (snd (snd direction))\<bar>)"
    and nz: "(Adx, Ady, Adz) \<noteq> (0, 0, 0)"
    and s: "driving (Adx, Ady, Adz) inc = 1 \<or> driving (Adx, Ady, Adz) inc = - 1"
  shows "\<exists>new. bresenham p direction inc bound pts = Some (pts @ new) \<and>
           (\<forall>q \<in> set new. \<not> out_of_canvas q bound) \<and>
           (\<forall>j < length new. driving (Adx, Ady, Adz) (new ! j) =
                driving (Adx, Ady, Adz) p + (int j + 1) * driving (Adx, Ady, Adz) inc)"
proof (induction "nat (if driving (Adx, Ady, Adz) inc = 1
                       then driving (Adx, Ady, Adz) bound - driving (Adx, Ady, Adz) p
                       else driving (Adx, Ady, Adz) p + 1)"
       arbitrary: p pts rule: less_induct)
  case less
  let ?Ad = "(Adx, Ady, Adz)"
  let ?keep = "\<lambda>q. \<not> out_of_canvas q bound"
  have nn: "0 \<le> Adx" "0 \<le> Ady" "0 \<le> Adz" using Ad by auto
  have pos: "0 < driving ?Ad ?Ad" using driving_self_pos[OF nn nz] .
  obtain p' pts' where st: "stepping ?keep inc ?Ad (p, pts) = (p', pts')"
    by (meson surj_pair)
  from stepping_run[OF nn st] obtain n1 where n1: "pts' = pts @ n1" "\<forall>q \<in> set n1. ?keep q"
    "\<forall>j < length n1. driving ?Ad (n1 ! j) = driving ?Ad p + (int j + 1) * driving ?Ad inc"
    "?keep p' \<longrightarrow> int (length n1) = driving ?Ad ?Ad \<and>
        driving ?Ad p' = driving ?Ad p + driving ?Ad ?Ad * driving ?Ad inc"
    by blast
  have unf: "bresenham p direction inc bound pts =
        (if \<not> out_of_canvas p' bound then bresenham p' direction inc bound pts' else Some pts')"
    by (subst bresenham.simps) (simp add: Ad[symmetric] st)
  show ?case
  proof (cases "out_of_canvas p' bound")
    case True
    then show ?thesis using unf n1 by (intro exI[of _ n1]) simp
  next
    case False
    then have len: "int (length n1) = driving ?Ad ?Ad"
      and mv: "driving ?Ad p' = driving ?Ad p + driving ?Ad ?Ad * driving ?Ad inc"
      using n1(4) by simp_all
    have inside: "0 \<le> driving ?Ad p'" "driving ?Ad p' \<le> driving ?Ad bound - 1"
      using driving_in_canvas[OF False] by simp_all
    have dec: "nat (if driving ?Ad inc = 1 then driving ?Ad bound - driving ?Ad p' else driving ?Ad p' + 1)
             < nat (if driving ?Ad inc = 1 then driving ?Ad bound - driving ?Ad p else driving ?Ad p + 1)"
      using s pos mv inside by auto
    from less[OF dec, of pts'] obtain n2 where n2:
      "bresenham p' direction inc bound pts' = Some (pts' @ n2)"
      "\<forall>q \<in> set n2. ?keep q"
      "\<forall>j < length n2. driving ?Ad (n2 ! j) = driving ?Ad p' + (int j + 1) * driving ?Ad inc"
      by blast
    have ord: "\<forall>j < length (n1 @ n2). driving ?Ad ((n1 @ n2) ! j) =
                 driving ?Ad p + (int j + 1) * driving ?Ad inc"
    proof (intro allI impI)
      fix j assume j: "j < length (n1 @ n2)"
      show "driving ?Ad ((n1 @ n2) ! j) = driving ?Ad p + (int j + 1) * driving ?Ad inc"
      proof (cases "j < length n1")
        case True
        then show ?thesis using n1(3) by (simp add: nth_append)
      next
        case False
        then have k: "j - length n1 < length n2" using j by simp
        have "int (j - length n1) = int j - driving ?Ad ?Ad" using False len by simp
        then show ?thesis
          using n2(3) k False mv by (simp add: nth_append algebra_simps)
      qed
    qed
    show ?thesis
      using unf False n1(1,2) n2(1,2) ord by (intro exI[of _ "n1 @ n2"]) auto
  qed
qed

lemma driving_neg: "driving Ad (- 1 * xi, - 1 * yi, - 1 * zi) = - driving Ad (xi, yi, zi)"
  by (cases Ad) (simp add: driving_def)

lemma driving_sign:
  "driving Ad (if d0 > 0 then 1 else - 1, if d1 > 0 then 1 else - 1, if d2 > (0::real) then 1 else - 1) = 1 \<or>
   driving Ad (if d0 > 0 then 1 else - 1, if d1 > 0 then 1 else - 1, if d2 > (0::real) then 1 else - 1) = - 1"
  by (cases Ad) (simp add: driving_def)

lemma get_line_points_ordered:
  fixes d0 d1 d2 :: real
  defines "Ad \<equiv> (\<bar>c_int d0\<bar>, \<bar>c_int d1\<bar>, \<bar>c_int d2\<bar>)"
  defines "s \<equiv> driving Ad (if d0 > 0 then 1 else - 1, if d1 > 0 then 1 else - 1, if d2 > 0 then 1 else - 1)"
  assumes nz: "\<not> (c_int d0 = 0 \<and> c_int d1 = 0 \<and> c_int d2 = 0)"
  shows "\<exists>neg pos.
           get_line_points point (d0, d1, d2) bound = Some (rev neg @ point # pos) \<and>
           (\<forall>q \<in> set neg \<union> set pos. \<not> out_of_canvas q bound) \<and>
           (\<forall>k < length (rev neg @ point # pos).
              driving Ad ((rev neg @ point # pos) ! k) = driving Ad point + (int k - int (length neg)) * s)"
proof -
  let ?dir = "(d0, d1, d2)"
  let ?inc = "(if d0 > 0 then 1 else - 1, if d1 > 0 then 1 else - 1, if d2 > 0 then 1 else - 1) :: int \<times> int \<times> int"
  let ?ninc = "(- 1 * (if d0 > 0 then 1 else - 1), - 1 * (if d1 > 0 then 1 else - 1),
                - 1 * (if d2 > 0 then 1 else - 1)) :: int \<times> int \<times> int"
  have Ad: "Ad = (\<bar>c_int (fst ?dir)\<bar>, \<bar>c_int (fst (snd ?dir))\<bar>, \<bar>c_int (snd (snd ?dir))\<bar>)"
    by (simp add: Ad_def)
  have Adnz: "Ad \<noteq> (0, 0, 0)" using nz by (auto simp: Ad_def)
  have s1: "driving Ad ?inc = 1 \<or> driving Ad ?inc = - 1" by (rule driving_sign)
  have ns: "driving Ad ?ninc = - s" unfolding s_def by (rule driving_neg)
  then have s2: "driving Ad ?ninc = 1 \<or> driving Ad ?ninc = - 1" using s1 s_def by auto
  obtain Adx Ady Adz where A: "Ad = (Adx, Ady, Adz)" by (cases Ad) auto
  from bresenham_returns[OF Ad[unfolded A] Adnz[unfolded A] s1[unfolded A], of point bound "[]"]
  obtain pos where pos: "bresenham point ?dir ?inc bound [] = Some pos"
    "\<forall>q \<in> set pos. \<not> out_of_canvas q bound"
    "\<forall>j < length pos. driving Ad (pos ! j) = driving Ad point + (int j + 1) * s"
    unfolding A s_def by auto
  from bresenham_returns[OF Ad[unfolded A] Adnz[unfolded A] s2[unfolded A], of point bound "rev pos @ [point]"]
  obtain neg where neg: "bresenham point ?dir ?ninc bound (rev pos @ [point]) = Some ((rev pos @ [point]) @ neg)"
    "\<forall>q \<in> set neg. \<not> out_of_canvas q bound"
    "\<forall>j < length neg. driving Ad (neg ! j) = driving Ad point + (int j + 1) * (- s)"
    unfolding A[symmetric] ns by auto
  have dnz: "\<not> (d0 = 0 \<and> d1 = 0 \<and> d2 = 0)" using nz by (auto simp: c_int_def)
  have res: "get_line_points point ?dir bound = Some (rev neg @ point # pos)"
    using dnz pos(1) neg(1) by (simp add: get_line_points_def Let_def)
  have ord: "\<forall>k < length (rev neg @ point # pos).
              driving Ad ((rev neg @ point # pos) ! k) = driving Ad point + (int k - int (length neg)) * s"
  proof (intro allI impI)
    fix k assume k: "k < length (rev neg @ point # pos)"
    consider (lo) "k < length neg" | (mid) "k = length neg" | (hi) "k > length neg" by linarith
    then show "driving Ad ((rev neg @ point # pos) ! k) = driving Ad point + (int k - int (length neg)) * s"
    proof cases
      case lo
      then have e: "(rev neg @ point # pos) ! k = neg ! (length neg - Suc k)"
        by (simp add: nth_append rev_nth)
      have l: "length neg - Suc k < length neg" using lo by simp
      have i: "int (length neg - Suc k) + 1 = int (length neg) - int k" using lo by simp
      have "driving Ad (neg ! (length neg - Suc k)) =
              driving Ad point + (int (length neg - Suc k) + 1) * (- s)"
        using neg(3) l by blast
      then show ?thesis unfolding e i by (simp add: algebra_simps)
    next
      case mid
      then show ?thesis by (simp add: nth_append)
    next
      case hi
      then obtain j where j: "k = length neg + Suc j" by (metis less_iff_Suc_add add_Suc_right)
      then have "j < length pos" using k by simp
      moreover have "(rev neg @ point # pos) ! k = pos ! j" using j by (simp add: nth_append)
      ultimately have "driving Ad ((rev neg @ point # pos) ! k) = driving Ad point + (int j + 1) * s"
        using pos(3) by simp
      then show ?thesis using j by (simp add: algebra_simps)
    qed
  qed
  show ?thesis using res pos(2) neg(2) ord by (intro exI[of _ neg] exI[of _ pos]) auto
qed

section \<open>The thinning loop\<close>

lemma thin_loop_defined:
  "\<forall>q \<in> set lp. \<exists>g. scharr q = Inr g \<Longrightarrow>
   \<exists>new. thin_loop scharr T lp (tmp_last, tmp_max, tmp_g, cont) re = Inr (re @ new)"
proof (induction lp arbitrary: tmp_last tmp_max tmp_g cont re)
  case Nil
  then show ?case by simp
next
  case (Cons pt rest)
  then obtain grad where g: "scharr pt = Inr grad" by auto
  have rest: "\<forall>q \<in> set rest. \<exists>g. scharr q = Inr g" using Cons.prems by simp
  note IH = Cons.IH[OF rest]
  consider (a) "thin_loop scharr T (pt # rest) (tmp_last, tmp_max, tmp_g, cont) re =
                  thin_loop scharr T rest (pt, pt, grad, True) re"
    | (b) "thin_loop scharr T (pt # rest) (tmp_last, tmp_max, tmp_g, cont) re =
                  thin_loop scharr T rest (pt, tmp_max, tmp_g, True) re"
    | (c) "thin_loop scharr T (pt # rest) (tmp_last, tmp_max, tmp_g, cont) re =
                  thin_loop scharr T rest (tmp_last, tmp_max, tmp_g, False) (re @ [tmp_max])"
    | (d) "thin_loop scharr T (pt # rest) (tmp_last, tmp_max, tmp_g, cont) re =
                  thin_loop scharr T rest (tmp_last, tmp_max, tmp_g, cont) re"
    using g
    by (cases "T \<le> grad"; cases cont; cases "point_cont tmp_last pt"; cases "tmp_g \<le> grad";
        simp add: bind_e_def)
  then show ?case
  proof cases
    case a
    then show ?thesis using IH[of pt pt grad True re] by simp
  next
    case b
    then show ?thesis using IH[of pt tmp_max tmp_g True re] by simp
  next
    case c
    from IH[of tmp_last tmp_max tmp_g False "re @ [tmp_max]"] obtain new where
      "thin_loop scharr T rest (tmp_last, tmp_max, tmp_g, False) (re @ [tmp_max]) = Inr ((re @ [tmp_max]) @ new)"
      by blast
    then show ?thesis using c by (intro exI[of _ "tmp_max # new"]) simp
  next
    case d
    then show ?thesis using IH[of tmp_last tmp_max tmp_g cont re] by simp
  qed
qed

lemma scharr_thinning_defined:
  assumes "lp \<noteq> []" "\<forall>q \<in> set lp. \<exists>g. cv_imgs_point_scharr images q = Inr g"
  shows "\<exists>mid. scharr_thinning images lp T = Inr (hd lp # mid @ [last lp])"
proof -
  from thin_loop_defined[OF assms(2), of T "(0, 0, 0)" "(0, 0, 0)" 0 False "[hd lp]"]
  obtain new where "thin_loop (cv_imgs_point_scharr images) T lp ((0, 0, 0), (0, 0, 0), 0, False) [hd lp]
                     = Inr ([hd lp] @ new)" by blast
  then show ?thesis using assms(1) by (simp add: scharr_thinning_def bind_e_def)
qed

lemma seg_points_empty:
  "start = endp \<or> (out_of_canvas start bound \<and> out_of_canvas endp bound) \<Longrightarrow>
   get_line_seg_points start endp bound = Some []"
  by (cases start; cases endp) (auto simp: get_line_seg_points_def)

lemma seg_points_empty_iff:
  "get_line_seg_points start endp bound = Some [] \<longleftrightarrow>
     start = endp \<or> (out_of_canvas start bound \<and> out_of_canvas endp bound)"
proof
  assume e: "get_line_seg_points start endp bound = Some []"
  show "start = endp \<or> (out_of_canvas start bound \<and> out_of_canvas endp bound)"
  proof (rule ccontr)
    assume "\<not> (start = endp \<or> (out_of_canvas start bound \<and> out_of_canvas endp bound))"
    then have "start \<noteq> endp" "\<not> out_of_canvas start bound \<or> \<not> out_of_canvas endp bound" by auto
    from get_line_seg_points_total[OF this] e show False by auto
  qed
next
  assume "start = endp \<or> (out_of_canvas start bound \<and> out_of_canvas endp bound)"
  then show "get_line_seg_points start endp bound = Some []" by (rule seg_points_empty)
qed

lemma line_points_empty_iff:
  "get_line_points point direction bound = Some [] \<longleftrightarrow> direction = (0, 0, 0)"
proof
  assume e: "get_line_points point direction bound = Some []"
  show "direction = (0, 0, 0)"
  proof (rule ccontr)
    assume "direction \<noteq> (0, 0, 0)"
    from get_line_points_shape[OF e this] show False by simp
  qed
next
  assume "direction = (0, 0, 0)"
  then show "get_line_points point direction bound = Some []" by (simp add: get_line_points_def)
qed

subsection \<open>The samplers on the example frame\<close>

lemma ridge_brightness:
  "0 \<le> r \<Longrightarrow> r < 3 \<Longrightarrow> 0 \<le> c \<Longrightarrow> c < 5 \<Longrightarrow>
   brightness ridge_frame r c = Inr (if r = 2 \<and> (c = 0 \<or> c = 2 \<or> c = 4) then 32 else 0)"
  by (simp add: brightness_def Mat_at_def bind_e_def ridge_frame_def channel_def)

lemma ridge_images_at: "images_at [ridge_frame] 0 = Inr ridge_frame"
  by (simp add: images_at_def)

lemma ridge_dims: "cols ridge_frame = 5" "rows ridge_frame = 3"
  by (simp_all add: ridge_frame_def)

lemma ridge_grad:
  "cv_imgs_point_scharr [ridge_frame] (0, 1, 0) = Inr 0"
  "cv_imgs_point_scharr [ridge_frame] (1, 1, 0) = Inr 6"
  "cv_imgs_point_scharr [ridge_frame] (2, 1, 0) = Inr 10"
  "cv_imgs_point_scharr [ridge_frame] (3, 1, 0) = Inr 6"
  "cv_imgs_point_scharr [ridge_frame] (4, 1, 0) = Inr 0"
  by (simp_all add: cv_imgs_point_scharr_def ridge_images_at ridge_dims ridge_brightness
        bind_e_def Let_def gx_def gy_def)

lemma ridge_line:
  "get_line_points (0, 1, 0) (1, 0, 0) (5, 3, 1) =
     Some [(0, 1, 0), (1, 1, 0), (2, 1, 0), (3, 1, 0), (4, 1, 0)]"
  by code_simp

lemma ridge_seg:
  "get_line_seg_points (0, 1, 0) (4, 1, 0) (5, 3, 1) =
     Some [(0, 1, 0), (1, 1, 0), (2, 1, 0), (3, 1, 0), (4, 1, 0)]"
  by code_simp

lemma ridge_thinning:
  "scharr_thinning [ridge_frame] [(0, 1, 0), (1, 1, 0), (2, 1, 0), (3, 1, 0), (4, 1, 0)] 5 =
     Inr [(0, 1, 0), (4, 1, 0)]"
  by (simp add: scharr_thinning_def ridge_grad bind_e_def point_cont_def)

section \<open>Rounding to binary64\<close>

text \<open>
  \<open>expo x\<close> is the exponent of the binade of a positive \<open>x\<close>. \<open>fl x\<close> is a multiple of
  \<open>2 ^ (expo x - 52)\<close> with a significand between \<open>2\<^sup>5\<^sup>2\<close> and \<open>2\<^sup>5\<^sup>3\<close>, no multiple is nearer
  to \<open>x\<close>, and the relative error is at most \<open>2\<^sup>-\<^sup>5\<^sup>3\<close>.
\<close>

lemma bits_pos: "0 < n \<Longrightarrow> 0 < bits n"
  by (subst bits.simps) simp

lemma bits_bounds: "0 < n \<Longrightarrow> 2 ^ (bits n - 1) \<le> n \<and> n < 2 ^ bits n"
proof (induction n rule: bits.induct)
  case (1 n)
  show ?case
  proof (cases "n div 2 = 0")
    case True
    then have n: "n = 1" using 1(2) by (cases n) auto
    have "bits (Suc 0) = Suc 0"
      by (subst bits.simps) (simp add: bits.simps)
    then show ?thesis by (simp add: n)
  next
    case False
    then have pos: "0 < n div 2" by simp
    from 1(1)[OF _ pos] 1(2)
    have ih: "2 ^ (bits (n div 2) - 1) \<le> n div 2" "n div 2 < 2 ^ bits (n div 2)" by simp_all
    have b: "bits n = Suc (bits (n div 2))"
      using 1(2) by (subst bits.simps) simp
    obtain k where k: "bits (n div 2) = Suc k"
      using bits_pos[OF pos] by (cases "bits (n div 2)") auto
    have "2 ^ bits (n div 2) \<le> 2 * (n div 2)"
      using ih(1) by (simp add: k)
    then have lo: "2 ^ bits (n div 2) \<le> n" by linarith
    have "n < 2 * 2 ^ bits (n div 2)" using ih(2) by linarith
    then show ?thesis using lo by (simp add: b)
  qed
qed

lemma pow2_powi: "pow2 k = 2 powi k"
  by (simp add: pow2_def power_int_def field_simps)

lemma pow2_pos: "0 < pow2 k"
  by (simp add: pow2_powi)

lemma pow2_add: "pow2 (j + k) = pow2 j * pow2 k"
  by (simp add: pow2_powi power_int_add)

lemma pow2_nat: "pow2 (int n) = 2 ^ n"
  by (simp add: pow2_def)

lemma pow2_neg: "pow2 (- int n) = 1 / 2 ^ n"
  by (simp add: pow2_powi power_int_minus field_simps)

lemma expo_bounds:
  assumes "0 < x"
  shows "pow2 (expo x) \<le> x \<and> x < pow2 (expo x + 1)"
proof (cases "1 \<le> x")
  case True
  let ?n = "nat \<lfloor>x\<rfloor>"
  have n: "0 < ?n" using True by simp
  obtain k where k: "bits ?n = Suc k" using bits_pos[OF n] by (cases "bits ?n") auto
  have e: "expo x = int k" using True by (simp add: expo_def k)
  from bits_bounds[OF n] have b: "2 ^ k \<le> ?n" "?n < 2 ^ Suc k" by (simp_all add: k)
  have "real ?n \<le> x" using True by simp
  moreover have "(2::real) ^ k \<le> real ?n" using b(1) by (metis of_nat_le_iff of_nat_numeral of_nat_power)
  ultimately have lo: "2 ^ k \<le> x" by linarith
  have "x < real ?n + 1" using True by simp
  moreover have "real ?n + 1 \<le> 2 ^ Suc k"
  proof -
    have "?n + 1 \<le> 2 ^ Suc k" using b(2) by simp
    then have "real (?n + 1) \<le> real (2 ^ Suc k)" by (simp only: of_nat_le_iff)
    then show ?thesis by simp
  qed
  ultimately have hi: "x < 2 ^ Suc k" by linarith
  have "int k + 1 = int (Suc k)" by simp
  then have "pow2 (int k + 1) = 2 ^ Suc k" by (simp only: pow2_nat)
  then show ?thesis using lo hi by (simp add: e pow2_nat)
next
  case False
  let ?m = "nat (\<lceil>1 / x\<rceil> - 1)"
  have inv: "1 < 1 / x" using False assms by simp
  then have c: "2 \<le> \<lceil>1 / x\<rceil>" by linarith
  then have m: "0 < ?m" by simp
  obtain k where k: "bits ?m = Suc k" using bits_pos[OF m] by (cases "bits ?m") auto
  have e: "expo x = - int (Suc k)" using False by (simp add: expo_def k)
  from bits_bounds[OF m] have b: "2 ^ k \<le> ?m" "?m < 2 ^ Suc k" by (simp_all add: k)
  have "0 \<le> \<lceil>1 / x\<rceil> - 1" using c by linarith
  then have "real ?m = real_of_int (\<lceil>1 / x\<rceil> - 1)" by (simp only: of_nat_nat)
  then have rm: "real ?m = real_of_int \<lceil>1 / x\<rceil> - 1" by (simp only: of_int_diff of_int_1)
  have m_lt: "real ?m < 1 / x" unfolding rm using ceiling_correct[of "1 / x"] by linarith
  have m_ge: "1 / x \<le> real ?m + 1" unfolding rm using ceiling_correct[of "1 / x"] by linarith
  have "(2::real) ^ k \<le> real ?m" using b(1) by (metis of_nat_le_iff of_nat_numeral of_nat_power)
  then have "2 ^ k < 1 / x" using m_lt by linarith
  then have hi: "x < 1 / 2 ^ k" using assms by (simp add: field_simps)
  have "real ?m + 1 \<le> 2 ^ Suc k"
  proof -
    have "?m + 1 \<le> 2 ^ Suc k" using b(2) by simp
    then have "real (?m + 1) \<le> real (2 ^ Suc k)" by (simp only: of_nat_le_iff)
    then show ?thesis by simp
  qed
  then have "1 / x \<le> 2 ^ Suc k" using m_ge by linarith
  then have lo: "1 / 2 ^ Suc k \<le> x" using assms by (simp add: field_simps)
  have p1: "pow2 (- int (Suc k)) = 1 / 2 ^ Suc k" by (rule pow2_neg)
  have "- int (Suc k) + 1 = - int k" by simp
  then have p2: "pow2 (- int (Suc k) + 1) = 1 / 2 ^ k" by (simp only: pow2_neg)
  show ?thesis using lo hi unfolding e p1 p2 by simp
qed

lemma round_even_nearest: "\<bar>real_of_int (round_even y) - y\<bar> \<le> \<bar>real_of_int k - y\<bar>"
proof -
  let ?f = "\<lfloor>y\<rfloor>"
  have f: "real_of_int ?f \<le> y" "y < real_of_int ?f + 1" by linarith+
  consider "k \<le> ?f" | "?f + 1 \<le> k" by linarith
  then show ?thesis
  proof cases
    case 1
    then have "real_of_int k \<le> real_of_int ?f" by simp
    then show ?thesis using f by (auto simp: round_even_def Let_def)
  next
    case 2
    then have "real_of_int ?f + 1 \<le> real_of_int k" by linarith
    then show ?thesis using f by (auto simp: round_even_def Let_def)
  qed
qed

lemma round_even_half: "\<bar>real_of_int (round_even y) - y\<bar> \<le> 1 / 2"
proof -
  have f: "real_of_int \<lfloor>y\<rfloor> \<le> y" "y < real_of_int \<lfloor>y\<rfloor> + 1" by linarith+
  then show ?thesis by (auto simp: round_even_def Let_def)
qed

lemma fl_scaled:
  assumes "x \<noteq> 0"
  shows "fl x - x = (real_of_int (round_even (x * pow2 (52 - expo \<bar>x\<bar>))) - x * pow2 (52 - expo \<bar>x\<bar>))
                      * pow2 (expo \<bar>x\<bar> - 52)"
proof -
  have "pow2 (52 - expo \<bar>x\<bar>) * pow2 (expo \<bar>x\<bar> - 52) = pow2 0"
    by (simp add: pow2_add[symmetric])
  then have "x * pow2 (52 - expo \<bar>x\<bar>) * pow2 (expo \<bar>x\<bar> - 52) = x"
    by (simp add: pow2_def)
  then show ?thesis using assms by (simp add: fl_def Let_def algebra_simps)
qed

lemma fl_nearest:
  assumes "x \<noteq> 0"
  shows "\<bar>fl x - x\<bar> \<le> \<bar>real_of_int k * pow2 (expo \<bar>x\<bar> - 52) - x\<bar>"
proof -
  let ?e = "expo \<bar>x\<bar>"
  let ?y = "x * pow2 (52 - ?e)"
  have u: "?y * pow2 (?e - 52) = x"
  proof -
    have "pow2 (52 - ?e) * pow2 (?e - 52) = pow2 0" by (simp add: pow2_add[symmetric])
    then show ?thesis by (simp add: pow2_def)
  qed
  have "real_of_int k * pow2 (?e - 52) - x = (real_of_int k - ?y) * pow2 (?e - 52)"
    using u by (simp add: algebra_simps)
  then have r: "\<bar>real_of_int k * pow2 (?e - 52) - x\<bar> = \<bar>real_of_int k - ?y\<bar> * pow2 (?e - 52)"
    using pow2_pos[of "?e - 52"] by (simp add: abs_mult)
  have l: "\<bar>fl x - x\<bar> = \<bar>real_of_int (round_even ?y) - ?y\<bar> * pow2 (?e - 52)"
    using pow2_pos[of "?e - 52"] by (simp add: fl_scaled[OF assms] abs_mult)
  show ?thesis
    unfolding l r using round_even_nearest[of ?y k] pow2_pos[of "?e - 52"]
    by (simp add: mult_right_mono)
qed

lemma fl_error: "\<bar>fl x - x\<bar> \<le> \<bar>x\<bar> / 2 ^ 53"
proof (cases "x = 0")
  case True
  then show ?thesis by (simp add: fl_def)
next
  case False
  let ?e = "expo \<bar>x\<bar>"
  let ?y = "x * pow2 (52 - ?e)"
  have l: "\<bar>fl x - x\<bar> = \<bar>real_of_int (round_even ?y) - ?y\<bar> * pow2 (?e - 52)"
    using pow2_pos[of "?e - 52"] by (simp add: fl_scaled[OF False] abs_mult)
  have "\<bar>fl x - x\<bar> \<le> 1 / 2 * pow2 (?e - 52)"
    unfolding l using round_even_half[of ?y] pow2_pos[of "?e - 52"] by (simp add: mult_right_mono)
  also have "pow2 (?e - 52) = pow2 ?e * pow2 (- 52)"
    using pow2_add[of ?e "- 52"] by simp
  also have "1 / 2 * (pow2 ?e * pow2 (- 52)) = pow2 ?e / 2 ^ 53"
    by (simp add: pow2_def)
  also have "\<dots> \<le> \<bar>x\<bar> / 2 ^ 53"
    using expo_bounds[of "\<bar>x\<bar>"] False by (simp add: divide_right_mono)
  finally show ?thesis .
qed


lemma round_even_between:
  assumes "real_of_int a \<le> y" "y \<le> real_of_int b"
  shows "a \<le> round_even y \<and> round_even y \<le> b"
proof -
  have "a \<le> round_even y"
  proof (rule ccontr)
    assume "\<not> a \<le> round_even y"
    then have "real_of_int (round_even y) \<le> real_of_int a - 1" by linarith
    then show False using round_even_nearest[of y a] assms(1) by linarith
  qed
  moreover have "round_even y \<le> b"
  proof (rule ccontr)
    assume "\<not> round_even y \<le> b"
    then have "real_of_int b + 1 \<le> real_of_int (round_even y)" by linarith
    then show False using round_even_nearest[of y b] assms(2) by linarith
  qed
  ultimately show ?thesis by simp
qed

lemma fl_significand:
  assumes "0 < x"
  shows "\<exists>m. fl x = real_of_int m * pow2 (expo x - 52) \<and> 2 ^ 52 \<le> m \<and> m \<le> 2 ^ 53"
proof -
  let ?e = "expo x"
  let ?y = "x * pow2 (52 - ?e)"
  have p: "0 < pow2 (52 - ?e)" by (rule pow2_pos)
  have "pow2 52 = 2 ^ 52" "pow2 53 = 2 ^ 53"
    by (simp_all add: pow2_def)
  moreover have "pow2 ?e * pow2 (52 - ?e) = pow2 52" "pow2 (?e + 1) * pow2 (52 - ?e) = pow2 53"
    by (simp_all add: pow2_add[symmetric])
  ultimately have "pow2 ?e * pow2 (52 - ?e) = 2 ^ 52" "pow2 (?e + 1) * pow2 (52 - ?e) = 2 ^ 53"
    by simp_all
  then have "2 ^ 52 \<le> ?y" "?y \<le> 2 ^ 53"
    using expo_bounds[OF assms] p mult_right_mono[of "pow2 ?e" x "pow2 (52 - ?e)"]
      mult_right_mono[of x "pow2 (?e + 1)" "pow2 (52 - ?e)"] by simp_all
  then have "real_of_int (2 ^ 52) \<le> ?y" "?y \<le> real_of_int (2 ^ 53)" by simp_all
  from round_even_between[OF this]
  have "2 ^ 52 \<le> round_even ?y \<and> round_even ?y \<le> 2 ^ 53" .
  moreover have "fl x = real_of_int (round_even ?y) * pow2 (?e - 52)"
    using assms by (simp add: fl_def Let_def)
  ultimately show ?thesis by blast
qed

section \<open>Local statistics\<close>

lemma pixel_at_readable:
  "readable images pos \<Longrightarrow>
   pixel_at images pos = Inr (case pos of (c, r, i) \<Rightarrow> data (images ! nat (c_int i)) (c_int r) (c_int c))"
  by (cases pos) (simp add: readable_def pixel_at_def images_at_def Mat_at_def bind_e_def)

lemma sum_pixels_readable:
  "\<forall>pos \<in> set ps. readable images pos \<Longrightarrow>
   sum_pixels images ps (a0, a1, a2) =
     Inr (a0 + sum_list (map (\<lambda>pos. pixel_value images pos 0) ps),
          a1 + sum_list (map (\<lambda>pos. pixel_value images pos 1) ps),
          a2 + sum_list (map (\<lambda>pos. pixel_value images pos 2) ps))"
proof (induction ps arbitrary: a0 a1 a2)
  case Nil
  then show ?case by simp
next
  case (Cons pos ps)
  then have r: "readable images pos" and rest: "\<forall>pos \<in> set ps. readable images pos" by simp_all
  obtain c r' i where pos: "pos = (c, r', i)" by (cases pos) auto
  have pa: "pixel_at images (c, r', i) = Inr (data (images ! nat (c_int i)) (c_int r') (c_int c))"
    using pixel_at_readable[OF r] by (simp add: pos)
  show ?case
    unfolding pos by (simp add: pa bind_e_def Cons.IH[OF rest] pixel_value_def add.assoc)
qed

lemma sum_sq_dev_readable:
  "\<forall>pos \<in> set ps. readable images pos \<Longrightarrow>
   sum_sq_dev images (m0, m1, m2) ps (v0, v1, v2) =
     Inr (v0 + sum_list (map (\<lambda>pos. (pixel_value images pos 0 - m0) ^ 2) ps),
          v1 + sum_list (map (\<lambda>pos. (pixel_value images pos 1 - m1) ^ 2) ps),
          v2 + sum_list (map (\<lambda>pos. (pixel_value images pos 2 - m2) ^ 2) ps))"
proof (induction ps arbitrary: v0 v1 v2)
  case Nil
  then show ?case by simp
next
  case (Cons pos ps)
  then have r: "readable images pos" and rest: "\<forall>pos \<in> set ps. readable images pos" by simp_all
  obtain c r' i where pos: "pos = (c, r', i)" by (cases pos) auto
  have pa: "pixel_at images (c, r', i) = Inr (data (images ! nat (c_int i)) (c_int r') (c_int c))"
    using pixel_at_readable[OF r] by (simp add: pos)
  show ?case
    unfolding pos by (simp add: pa bind_e_def Cons.IH[OF rest] pixel_value_def add.assoc)
qed

lemma range_d_bounds: "x \<in> set (range_d lo hi) \<Longrightarrow> lo \<le> x \<and> x \<le> hi"
proof (induction lo hi rule: range_d.induct)
  case (1 lo hi)
  show ?case
  proof (cases "lo \<le> hi")
    case True
    then have "x = lo \<or> x \<in> set (range_d (lo + 1) hi)"
      using 1(2) by (subst (asm) range_d.simps) simp
    then show ?thesis using 1(1)[OF True] True by auto
  next
    case False
    then show ?thesis using 1(2) by (subst (asm) range_d.simps) simp
  qed
qed

lemma left_up_nonneg: "0 \<le> left_up p r"
  by (simp add: left_up_def)

lemma right_down_less: "right_down p r b < real_of_int b"
  by (simp add: right_down_def)

lemma c_int_in_range:
  assumes "0 \<le> x" "x < real_of_int b"
  shows "0 \<le> c_int x \<and> c_int x < b"
  using assms by (simp add: c_int_def floor_less_iff)

lemma local_point_set_in_box:
  assumes "(c, r, i) \<in> set (local_point_set c_pow point radius (b0, b1, b2))"
  shows "0 \<le> c_int c \<and> c_int c < b0 \<and> 0 \<le> c_int r \<and> c_int r < b1 \<and> 0 \<le> c_int i \<and> c_int i < b2"
proof -
  obtain p0 p1 p2 where p: "point = (p0, p1, p2)" by (cases point) auto
  obtain r0 r1 r2 where r: "radius = (r0, r1, r2)" by (cases radius) auto
  from assms have
    "c \<in> set (range_d (left_up p0 r0) (right_down p0 r0 b0))"
    "r \<in> set (range_d (left_up p1 r1) (right_down p1 r1 b1))"
    "i \<in> set (range_d (left_up p2 r2) (right_down p2 r2 b2))"
    unfolding local_point_set_def bound_scalar_3d_def p r
    by (auto split: if_splits)
  then have "left_up p0 r0 \<le> c \<and> c \<le> right_down p0 r0 b0"
    "left_up p1 r1 \<le> r \<and> r \<le> right_down p1 r1 b1"
    "left_up p2 r2 \<le> i \<and> i \<le> right_down p2 r2 b2"
    by (auto dest: range_d_bounds)
  then have "0 \<le> c \<and> c < real_of_int b0" "0 \<le> r \<and> r < real_of_int b1" "0 \<le> i \<and> i < real_of_int b2"
    using left_up_nonneg[of p0 r0] right_down_less[of p0 r0 b0]
      left_up_nonneg[of p1 r1] right_down_less[of p1 r1 b1]
      left_up_nonneg[of p2 r2] right_down_less[of p2 r2 b2]
    by linarith+
  then show ?thesis
    using c_int_in_range by blast
qed

lemma local_point_set_iff:
  "(c, r, i) \<in> set (local_point_set c_pow (p0, p1, p2) (r0, r1, r2) (b0, b1, b2)) \<longleftrightarrow>
     c \<in> set (range_d (left_up p0 r0) (right_down p0 r0 b0)) \<and>
     r \<in> set (range_d (left_up p1 r1) (right_down p1 r1 b1)) \<and>
     i \<in> set (range_d (left_up p2 r2) (right_down p2 r2 b2)) \<and>
     d_add (d_add (ellipsoid_term c_pow c p0 r0) (ellipsoid_term c_pow r p1 r1))
       (ellipsoid_term c_pow i p2 r2) \<le> 1"
  unfolding local_point_set_def bound_scalar_3d_def
  by (auto split: if_splits)

lemma local_point_set_readable:
  assumes "images \<noteq> []" "equal_sized images"
    and "pos \<in> set (local_point_set c_pow point radius
                         (cols (images ! 0), rows (images ! 0), int (length images)))"
  shows "readable images pos"
proof -
  obtain c r i where pos: "pos = (c, r, i)" by (cases pos) auto
  from local_point_set_in_box[OF assms(3)[unfolded pos]]
  have b: "0 \<le> c_int c" "c_int c < cols (images ! 0)" "0 \<le> c_int r" "c_int r < rows (images ! 0)"
    "0 \<le> c_int i" "c_int i < int (length images)" by simp_all
  then have "images ! nat (c_int i) \<in> set images" by simp
  then have "cols (images ! nat (c_int i)) = cols (images ! 0)" "rows (images ! nat (c_int i)) = rows (images ! 0)"
    using assms(2) by (auto simp: equal_sized_def list_all_iff)
  then show ?thesis using b by (simp add: readable_def pos)
qed

lemma range_d_single: "range_d x x = [x]"
proof -
  have "range_d (x + 1) x = []" by (subst range_d.simps) simp
  then show ?thesis by (subst range_d.simps) simp
qed

lemma c_int_of_int: "c_int (real_of_int n) = n"
  by (simp add: c_int_def)

lemma local_point_set_zero_radius:
  assumes "\<not> out_of_canvas (x, y, z) (b0, b1, b2)"
  shows "local_point_set c_pow (x, y, z) (0, 0, 0) (b0, b1, b2) =
           [(real_of_int x, real_of_int y, real_of_int z)]"
proof -
  have "left_up x 0 = real_of_int x" "left_up y 0 = real_of_int y" "left_up z 0 = real_of_int z"
    "right_down x 0 b0 = real_of_int x" "right_down y 0 b1 = real_of_int y" "right_down z 0 b2 = real_of_int z"
    using assms by (auto simp: out_of_canvas_def left_up_def right_down_def)
  then show ?thesis
    by (simp add: local_point_set_def bound_scalar_3d_def range_d_single ellipsoid_term_def
          d_add_def fl_def)
qed

lemma color_loc_exact:
  assumes "images \<noteq> []" "equal_sized images"
    and "\<not> out_of_canvas (x, y, z) (cols (images ! 0), rows (images ! 0), int (length images))"
  shows "cv_imgs_point_color_loc c_pow images (x, y, z) (0, 0, 0) =
           Inr (Some (pixel_value images (real_of_int x, real_of_int y, real_of_int z) 0,
                      pixel_value images (real_of_int x, real_of_int y, real_of_int z) 1,
                      pixel_value images (real_of_int x, real_of_int y, real_of_int z) 2))"
proof -
  let ?b = "(cols (images ! 0), rows (images ! 0), int (length images))"
  have ps: "local_point_set c_pow (x, y, z) (0, 0, 0) ?b =
              [(real_of_int x, real_of_int y, real_of_int z)]"
    by (rule local_point_set_zero_radius[OF assms(3)])
  have rd: "\<forall>pos \<in> set (local_point_set c_pow (x, y, z) (0, 0, 0) ?b). readable images pos"
    using local_point_set_readable[OF assms(1,2)] by blast
  have first: "images_at images 0 = Inr (images ! 0)"
    using assms(1) by (simp add: images_at_def)
  show ?thesis
    unfolding cv_imgs_point_color_loc_def first bind_e_def Let_def
    by (simp add: sum_pixels_readable[OF rd]) (simp add: ps)
qed

text \<open>
  Over the positions that \<^verbatim>\<open>cv_imgs_point_var_loc\<close> enumerates, two or more of them, its
  accumulation loops compute the sum over the three channels of the sample standard
  deviation, and no pixel read leaves its frame.
\<close>

lemma var_loc_over_point_set:
  assumes "images \<noteq> []" and "equal_sized images"
    and "2 \<le> length (local_point_set c_pow point radius
                        (cols (images ! 0), rows (images ! 0), int (length images)))"
  shows "cv_imgs_point_var_loc c_pow images point radius =
           Inr (Some (sample_std (map (\<lambda>pos. pixel_value images pos 0)
                        (local_point_set c_pow point radius
                           (cols (images ! 0), rows (images ! 0), int (length images))))
                    + sample_std (map (\<lambda>pos. pixel_value images pos 1)
                        (local_point_set c_pow point radius
                           (cols (images ! 0), rows (images ! 0), int (length images))))
                    + sample_std (map (\<lambda>pos. pixel_value images pos 2)
                        (local_point_set c_pow point radius
                           (cols (images ! 0), rows (images ! 0), int (length images))))))"
proof -
  let ?ps = "local_point_set c_pow point radius (cols (images ! 0), rows (images ! 0), int (length images))"
  have rd: "\<forall>pos \<in> set ?ps. readable images pos"
    using local_point_set_readable[OF assms(1,2)] by blast
  have first: "images_at images 0 = Inr (images ! 0)"
    using assms(1) by (simp add: images_at_def)
  have n: "2 \<le> length ?ps" using assms(3) by simp
  then have n0: "length ?ps \<noteq> 0" "int (length ?ps) - 1 \<noteq> 0" by auto
  have len: "real_of_int (int (length ?ps) - 1) = real (length ?ps) - 1"
    using n by simp
  show ?thesis
    unfolding cv_imgs_point_var_loc_def first bind_e_def Let_def
    using n0
    by (simp add: sum_pixels_readable[OF rd] sum_sq_dev_readable[OF rd] sample_std_def len comp_def)
qed

subsection \<open>A lattice point on the boundary of the ellipsoid\<close>

text \<open>
  Radius 13 around the origin, in a canvas of 6 columns and 13 rows: the position
  (5, 12, 0) is on the ellipse, \<open>(5/13)\<^sup>2 + (12/13)\<^sup>2 = 1\<close>. In binary64 the two quotients
  are rounded, their squares are rounded, and the rounded sum is \<open>1 + 2\<^sup>-\<^sup>5\<^sup>2\<close>.
\<close>

lemmas fl_eval = fl_def expo_def pow2_def round_even_def Let_def bits.simps
  d_add_def d_sub_def d_div_def pow_sq_def

lemma corner_positions_list:
  "corner_positions =
     [(0, 0, 0), (1, 0, 0), (2, 0, 0), (3, 0, 0), (4, 0, 0), (5, 0, 0),
      (0, 1, 0), (1, 1, 0), (2, 1, 0), (3, 1, 0), (4, 1, 0), (5, 1, 0),
      (0, 2, 0), (1, 2, 0), (2, 2, 0), (3, 2, 0), (4, 2, 0), (5, 2, 0),
      (0, 3, 0), (1, 3, 0), (2, 3, 0), (3, 3, 0), (4, 3, 0), (5, 3, 0),
      (0, 4, 0), (1, 4, 0), (2, 4, 0), (3, 4, 0), (4, 4, 0), (5, 4, 0),
      (0, 5, 0), (1, 5, 0), (2, 5, 0), (3, 5, 0), (4, 5, 0), (5, 5, 0),
      (0, 6, 0), (1, 6, 0), (2, 6, 0), (3, 6, 0), (4, 6, 0), (5, 6, 0),
      (0, 7, 0), (1, 7, 0), (2, 7, 0), (3, 7, 0), (4, 7, 0), (5, 7, 0),
      (0, 8, 0), (1, 8, 0), (2, 8, 0), (3, 8, 0), (4, 8, 0), (5, 8, 0),
      (0, 9, 0), (1, 9, 0), (2, 9, 0), (3, 9, 0), (4, 9, 0), (5, 9, 0),
      (0, 10, 0), (1, 10, 0), (2, 10, 0), (3, 10, 0), (4, 10, 0), (5, 10, 0),
      (0, 11, 0), (1, 11, 0), (2, 11, 0), (3, 11, 0), (4, 11, 0), (5, 11, 0),
      (0, 12, 0), (1, 12, 0), (2, 12, 0), (3, 12, 0), (4, 12, 0), (5, 12, 0)]"
  by code_simp

lemma corner_length: "length corner_positions = 78"
  unfolding corner_positions_list by simp

lemma corner_neighbourhood: "neighbourhood (0, 0, 0) (13, 13, 0) (6, 13, 1) = corner_positions"
  by code_simp

text \<open>The terms of the test as the code computes them: the doubles \<open>pow(k / 13.0, 2)\<close>.\<close>

lemma corner_terms:
  "ellipsoid_term pow_sq 0 0 0 = 0"
  "ellipsoid_term pow_sq 0 0 13 = 0"
  "ellipsoid_term pow_sq 1 0 13 = 3411010368659311 / 576460752303423488"
  "ellipsoid_term pow_sq 2 0 13 = 3411010368659311 / 144115188075855872"
  "ellipsoid_term pow_sq 3 0 13 = 3837386664741725 / 72057594037927936"
  "ellipsoid_term pow_sq 4 0 13 = 3411010368659311 / 36028797018963968"
  "ellipsoid_term pow_sq 5 0 13 = 5329703701030173 / 36028797018963968"
  "ellipsoid_term pow_sq 6 0 13 = 3837386664741725 / 18014398509481984"
  "ellipsoid_term pow_sq 7 0 13 = 5223109627009569 / 18014398509481984"
  "ellipsoid_term pow_sq 8 0 13 = 3411010368659311 / 9007199254740992"
  "ellipsoid_term pow_sq 9 0 13 = 8634119995668879 / 18014398509481984"
  "ellipsoid_term pow_sq 10 0 13 = 5329703701030173 / 9007199254740992"
  "ellipsoid_term pow_sq 11 0 13 = 6448941478246509 / 9007199254740992"
  "ellipsoid_term pow_sq 12 0 13 = 3837386664741725 / 4503599627370496"
  by (simp_all add: ellipsoid_term_def fl_eval)

lemma corner_sum:
  "d_add (d_add (ellipsoid_term pow_sq 5 0 13) (ellipsoid_term pow_sq 12 0 13))
     (ellipsoid_term pow_sq 0 0 0) = 1 + 1 / 2 ^ 52"
  by (simp add: corner_terms fl_eval)

lemma corner_point_set:
  "local_point_set pow_sq (0, 0, 0) (13, 13, 0) (6, 13, 1) = butlast corner_positions"
  apply (simp add: local_point_set_def bound_scalar_3d_def left_up_def right_down_def range_d.simps
           split del: if_split)
  apply (simp add: corner_terms fl_eval corner_positions_list split del: if_split)
  done

lemma corner_std:
  "sample_std (map (\<lambda>pos. pixel_value [corner_frame] pos 0) corner_positions) = sqrt 78"
  "sample_std (map (\<lambda>pos. pixel_value [corner_frame] pos (Suc 0)) corner_positions) = sqrt 78"
  "sample_std (map (\<lambda>pos. pixel_value [corner_frame] pos 2) corner_positions) = sqrt 78"
  unfolding corner_positions_list
  by (simp_all add: sample_std_def pixel_value_def c_int_def corner_frame_def channel_def)

lemma corner_images: "images_at [corner_frame] 0 = Inr corner_frame"
  by (simp add: images_at_def)

lemma corner_dims: "cols corner_frame = 6" "rows corner_frame = 13"
  by (simp_all add: corner_frame_def)

lemma corner_zero:
  "pos \<in> set (butlast corner_positions) \<Longrightarrow> pixel_at [corner_frame] pos = Inr (0, 0, 0)"
  unfolding corner_positions_list
  by (auto simp: pixel_at_def images_at_def Mat_at_def bind_e_def c_int_def corner_frame_def)

lemma sum_pixels_zero:
  "\<forall>pos \<in> set ps. pixel_at images pos = Inr (0, 0, 0) \<Longrightarrow>
   sum_pixels images ps (0, 0, 0) = Inr (0, 0, 0)"
  by (induction ps) (simp_all add: bind_e_def channel_def)

lemma sum_sq_dev_zero:
  "\<forall>pos \<in> set ps. pixel_at images pos = Inr (0, 0, 0) \<Longrightarrow>
   sum_sq_dev images (0, 0, 0) ps (0, 0, 0) = Inr (0, 0, 0)"
  by (induction ps) (simp_all add: bind_e_def channel_def)

lemma corner_var:
  "cv_imgs_point_var_loc pow_sq [corner_frame] (0, 0, 0) (13, 13, 0) = Inr (Some 0)"
proof -
  have z: "\<forall>pos \<in> set (butlast corner_positions). pixel_at [corner_frame] pos = Inr (0, 0, 0)"
    using corner_zero by blast
  show ?thesis
    unfolding cv_imgs_point_var_loc_def corner_images bind_e_def Let_def
    by (simp add: corner_dims corner_point_set corner_length sum_pixels_zero[OF z] sum_sq_dev_zero[OF z])
qed

subsection \<open>A fractional radius\<close>

text \<open>
  The loop counters start at \<open>point - radius\<close>. With radius 3/2 around column 2 they are
  1/2, 3/2, 5/2 and 7/2: the inequality is tested at these positions, the pixels read
  are at the truncated columns 0, 1, 2 and 3, and column 0 is not in the ellipsoid.
\<close>

lemma fractional_radius_positions:
  "local_point_set pow_sq (2, 0, 0) (3 / 2, 0, 0) (5, 1, 1) =
     [(1 / 2, 0, 0), (3 / 2, 0, 0), (5 / 2, 0, 0), (7 / 2, 0, 0)]"
  "neighbourhood (2, 0, 0) (3 / 2, 0, 0) (5, 1, 1) = [(1, 0, 0), (2, 0, 0), (3, 0, 0)]"
  "\<not> in_ellipsoid (real_of_int (c_int (1 / 2)), 0, 0) (2, 0, 0) (3 / 2, 0, 0)"
    apply (simp add: local_point_set_def bound_scalar_3d_def left_up_def right_down_def range_d.simps
             split del: if_split)
    apply (simp add: ellipsoid_term_def fl_eval split del: if_split)
   apply code_simp
  apply (simp add: in_ellipsoid_def c_int_def power2_eq_square)
  done

section \<open>Errors of the statistics\<close>

text \<open>Reading frames and pixels and counting colours fail in one way only.\<close>

lemma bind_e_Inl: "bind_e m f = Inl e \<Longrightarrow> m = Inl e \<or> (\<exists>a. m = Inr a \<and> f a = Inl e)"
  by (cases m) (auto simp: bind_e_def)

lemma images_at_err: "images_at images i = Inl e \<Longrightarrow> e = Undefined"
  by (auto simp: images_at_def split: if_splits)

lemma Mat_at_err: "Mat_at img r c = Inl e \<Longrightarrow> e = Undefined"
  by (auto simp: Mat_at_def split: if_splits)

lemma pixel_at_err: "pixel_at images pos = Inl e \<Longrightarrow> e = Undefined"
  by (cases pos) (auto simp: pixel_at_def dest!: bind_e_Inl dest: images_at_err Mat_at_err)

lemma sum_pixels_err: "sum_pixels images ps acc = Inl e \<Longrightarrow> e = Undefined"
  by (induction images ps acc rule: sum_pixels.induct)
     (auto dest!: bind_e_Inl dest: pixel_at_err)

lemma color_loc_err: "cv_imgs_point_color_loc c_pow images pt radius = Inl e \<Longrightarrow> e = Undefined"
  by (auto simp: cv_imgs_point_color_loc_def Let_def split: prod.splits if_splits
           dest!: bind_e_Inl dest: images_at_err sum_pixels_err)

lemma colors_of_err: "colors_of c_pow images ps = Inl e \<Longrightarrow> e = Undefined"
  by (induction ps arbitrary: e) (auto dest!: bind_e_Inl dest: color_loc_err)

lemma bump_err: "bump freq ch v = Inl e \<Longrightarrow> e = Undefined"
  by (auto simp: bump_def Let_def split: if_splits)

lemma histogram_counts_err: "histogram_counts colors freq = Inl e \<Longrightarrow> e = Undefined"
  by (induction colors freq rule: histogram_counts.induct)
     (auto split: option.splits dest!: bind_e_Inl dest: bump_err)

lemma kl_channel_sym: "kl_channel h1 h2 ch = kl_channel h2 h1 ch"
  by (simp add: kl_channel_def Let_def add.commute)


subsection \<open>Points in the canvas: the comparison is defined\<close>

lemma byte_less: "(unsigned (w :: 8 word) :: real) < 256"
proof -
  have "unat w < 256" using unsigned_less[of w, where 'a = nat] by simp
  then have "real (unat w) < real 256" by (simp only: of_nat_less_iff)
  then show ?thesis by simp
qed

lemma byte_nonneg: "0 \<le> (unsigned (w :: 8 word) :: real)"
proof -
  have "0 \<le> real (unat w)" by (rule of_nat_0_le_iff)
  then show ?thesis by simp
qed

lemma channel_range: "0 \<le> channel pixel ch \<and> channel pixel ch < 256"
  by (simp add: channel_def byte_less byte_nonneg)

lemma bump_defined:
  assumes "0 \<le> v" "v < 256"
  shows "\<exists>freq'. bump freq ch v = Inr freq'"
proof -
  have "0 \<le> c_int (v / 8)" using assms(1) by (simp add: c_int_def)
  moreover have "c_int (v / 8) < 32" using assms by (simp add: c_int_def floor_less_iff)
  ultimately show ?thesis by (simp add: bump_def Let_def)
qed

lemma histogram_counts_defined:
  assumes "\<forall>lab \<in> set colors. \<exists>l0 l1 l2. lab = Some (l0, l1, l2) \<and>
             0 \<le> l0 \<and> l0 < 256 \<and> 0 \<le> l1 \<and> l1 < 256 \<and> 0 \<le> l2 \<and> l2 < 256"
  shows "\<exists>freq'. histogram_counts colors freq = Inr freq'"
  using assms
proof (induction colors arbitrary: freq)
  case Nil
  then show ?case by simp
next
  case (Cons lab rest)
  then obtain l0 l1 l2 where lab: "lab = Some (l0, l1, l2)"
    and r: "0 \<le> l0" "l0 < 256" "0 \<le> l1" "l1 < 256" "0 \<le> l2" "l2 < 256" by auto
  obtain f0 where f0: "bump freq 0 l0 = Inr f0" using bump_defined[OF r(1,2)] by blast
  obtain f1 where f1: "bump f0 (Suc 0) l1 = Inr f1" using bump_defined[OF r(3,4)] by blast
  obtain f2 where f2: "bump f1 2 l2 = Inr f2" using bump_defined[OF r(5,6)] by blast
  have "\<exists>freq'. histogram_counts rest f2 = Inr freq'" using Cons.IH Cons.prems by simp
  then show ?case by (simp add: lab f0 f1 f2 bind_e_def)
qed

lemma colors_of_defined:
  assumes "images \<noteq> []" "equal_sized images"
    and "\<forall>p \<in> set points. \<not> out_of_canvas p (cols (images ! 0), rows (images ! 0), int (length images))"
  shows "\<exists>colors. colors_of c_pow images points = Inr colors \<and>
           (\<forall>lab \<in> set colors. \<exists>l0 l1 l2. lab = Some (l0, l1, l2) \<and>
             0 \<le> l0 \<and> l0 < 256 \<and> 0 \<le> l1 \<and> l1 < 256 \<and> 0 \<le> l2 \<and> l2 < 256)"
  using assms(3)
proof (induction points)
  case Nil
  then show ?case by simp
next
  case (Cons p points)
  obtain x y z where p: "p = (x, y, z)" by (cases p) auto
  have inside: "\<not> out_of_canvas (x, y, z) (cols (images ! 0), rows (images ! 0), int (length images))"
    using Cons.prems p by simp
  from Cons.IH Cons.prems obtain colors where c: "colors_of c_pow images points = Inr colors"
     "\<forall>lab \<in> set colors. \<exists>l0 l1 l2. lab = Some (l0, l1, l2) \<and>
             0 \<le> l0 \<and> l0 < 256 \<and> 0 \<le> l1 \<and> l1 < 256 \<and> 0 \<le> l2 \<and> l2 < 256" by auto
  show ?case
    unfolding p using c
    by (simp add: color_loc_exact[OF assms(1,2) inside] bind_e_def pixel_value_def channel_range)
qed

lemma compare_hist_defined:
  assumes "images \<noteq> []" "equal_sized images"
    and "\<forall>p \<in> set points_1. \<not> out_of_canvas p (cols (images ! 0), rows (images ! 0), int (length images))"
    and "\<forall>p \<in> set points_2. \<not> out_of_canvas p (cols (images ! 0), rows (images ! 0), int (length images))"
  shows "\<exists>kl. compare_hist c_pow images points_1 points_2 = Inr kl"
proof -
  from colors_of_defined[OF assms(1,2,3)] obtain c1 where c1: "colors_of c_pow images points_1 = Inr c1"
    "\<forall>lab \<in> set c1. \<exists>l0 l1 l2. lab = Some (l0, l1, l2) \<and>
             0 \<le> l0 \<and> l0 < 256 \<and> 0 \<le> l1 \<and> l1 < 256 \<and> 0 \<le> l2 \<and> l2 < 256" by blast
  from colors_of_defined[OF assms(1,2,4)] obtain c2 where c2: "colors_of c_pow images points_2 = Inr c2"
    "\<forall>lab \<in> set c2. \<exists>l0 l1 l2. lab = Some (l0, l1, l2) \<and>
             0 \<le> l0 \<and> l0 < 256 \<and> 0 \<le> l1 \<and> l1 < 256 \<and> 0 \<le> l2 \<and> l2 < 256" by blast
  obtain f1 where f1: "histogram_counts c1 (\<lambda>ch f. 0) = Inr f1"
    using histogram_counts_defined[OF c1(2)] by blast
  obtain f2 where f2: "histogram_counts c2 (\<lambda>ch f. 0) = Inr f2"
    using histogram_counts_defined[OF c2(2)] by blast
  show ?thesis
    by (simp add: compare_hist_def c1(1) c2(1) f1 f2 bind_e_def Let_def)
qed

section \<open>Properties\<close>

text \<open>
  C8. For every seed point and every bound, \<open>get_line_points\<close> with the zero direction
  vector returns the empty sequence: it returns, and the value is a sequence, not an
  error.
\<close>

theorem get_line_points_zero_direction:
  "get_line_points p (0, 0, 0) b = Some []"
  by (simp add: get_line_points_def)

text \<open>
  C6. For every point set with fewer than five points, four in particular,
  \<open>fit_ellipse\<close> fails with \<open>InvalidArgument\<close> (the assertion on the number of points)
  and returns no centre and no parameters, whatever the eigen-solver is.
\<close>

theorem fit_ellipse_needs_five_points:
  "length points < 5 \<Longrightarrow> fit_ellipse eig_gen_inv points = Inl InvalidArgument"
  by (simp add: fit_ellipse_def)

theorem fit_ellipse_four_points_witness:
  "length [(0, 0, 0), (1, 0, 0), (0, 1, 0), (1, 1, 0)::point] < 5 \<and>
   fit_ellipse (\<lambda>S C. ([], [])) [(0, 0, 0), (1, 0, 0), (0, 1, 0), (1, 1, 0)] = Inl InvalidArgument"
  using fit_ellipse_needs_five_points
    [of "[(0, 0, 0), (1, 0, 0), (0, 1, 0), (1, 1, 0)]" "\<lambda>S C. ([], [])"]
  by simp

text \<open>
  C9. For every frame sequence with a first frame, of width \<open>w\<close> and height \<open>h\<close>, and
  every point whose column is less than 1, whose row is less than 1, whose column
  exceeds \<open>w - 2\<close> or whose row exceeds \<open>h - 2\<close>, \<open>cv_imgs_point_scharr\<close> returns
  exactly 0; no pixel is read.
\<close>

theorem scharr_zero_at_border:
  "images \<noteq> [] \<Longrightarrow>
   x < 1 \<or> y < 1 \<or> x > cols (images ! 0) - 2 \<or> y > rows (images ! 0) - 2 \<Longrightarrow>
   cv_imgs_point_scharr images (x, y, frame) = Inr 0"
  by (auto simp: cv_imgs_point_scharr_def images_at_def bind_e_def Let_def)

theorem scharr_zero_at_border_witness:
  "[\<lparr>cols = 5, rows = 3, data = (\<lambda>r c. (0, 0, 0))\<rparr>] \<noteq> [] \<and>
   ((0::int) < 1 \<or> (1::int) < 1
      \<or> 0 > cols ([\<lparr>cols = 5, rows = 3, data = (\<lambda>r c. (0, 0, 0))\<rparr>] ! 0) - 2
      \<or> 1 > rows ([\<lparr>cols = 5, rows = 3, data = (\<lambda>r c. (0, 0, 0))\<rparr>] ! 0) - 2) \<and>
   cv_imgs_point_scharr [\<lparr>cols = 5, rows = 3, data = (\<lambda>r c. (0, 0, 0))\<rparr>] (0, 1, 0) = Inr 0"
  using scharr_zero_at_border [of "[\<lparr>cols = 5, rows = 3, data = (\<lambda>r c. (0, 0, 0))\<rparr>]" 0 1 0]
  by simp

text \<open>
  C2, as the claim states it, fails twice. With equal endpoints inside the canvas the
  result is empty; with \<open>start\<close> outside and \<open>endp\<close> inside the canvas the endpoints are
  swapped and the last element is \<open>start\<close>.
\<close>

theorem seg_last_counterexample:
  "\<not> out_of_canvas (0, 0, 0) (10, 10, 10) \<and>
   get_line_seg_points (0, 0, 0) (0, 0, 0) (10, 10, 10) = Some [] \<and>
   \<not> out_of_canvas (2, 0, 0) (10, 10, 10) \<and>
   get_line_seg_points (- 1, 0, 0) (2, 0, 0) (10, 10, 10) =
     Some [(2, 0, 0), (1, 0, 0), (0, 0, 0), (- 1, 0, 0)]"
  by code_simp

text \<open>
  C2, amended. For every pair of distinct points and every bound such that at least
  one of the two is in the canvas, \<open>get_line_seg_points\<close> returns, its result is not
  empty, and the last element is \<open>endp\<close> when \<open>start\<close> is in the canvas and \<open>start\<close>
  (the endpoints having been swapped) when it is not.
\<close>

theorem seg_last_is_far_end:
  assumes "start \<noteq> endp"
    and "\<not> out_of_canvas start bound \<or> \<not> out_of_canvas endp bound"
  shows "\<exists>r. get_line_seg_points start endp bound = Some r \<and> r \<noteq> [] \<and>
             last r = (if out_of_canvas start bound then start else endp)"
proof -
  from get_line_seg_points_total [OF assms] obtain mid where
    "get_line_seg_points start endp bound =
       Some ((if out_of_canvas start bound then endp else start) # mid @
             [if out_of_canvas start bound then start else endp])"
    by blast
  then show ?thesis
    by simp
qed

theorem seg_last_is_far_end_witness:
  "(0, 0, 0) \<noteq> ((5, 3, 1)::point) \<and>
   \<not> out_of_canvas (0, 0, 0) (10, 10, 10) \<and>
   (\<exists>r. get_line_seg_points (0, 0, 0) (5, 3, 1) (10, 10, 10) = Some r \<and> r \<noteq> [] \<and>
        last r = (if out_of_canvas (0, 0, 0) (10, 10, 10) then (0, 0, 0) else (5, 3, 1)))"
  using seg_last_is_far_end [of "(0, 0, 0)" "(5, 3, 1)" "(10, 10, 10)"]
  by (simp add: out_of_canvas_def)

text \<open>
  C7. For every frame sequence and every two point sets, non-empty or not, and
  whatever the library's \<^verbatim>\<open>pow\<close> computes, \<open>compare_hist\<close> gives the same outcome
  when the two point sets are swapped: the same value when it is defined, and no
  defined value in either order otherwise. (Over doubles the two per-channel sums are
  computed by the same operations in either order and their sum is commutative, so
  the equality is exact there too.)
\<close>

theorem compare_hist_symmetric:
  "compare_hist c_pow images points_1 points_2 = compare_hist c_pow images points_2 points_1"
proof -
  have k: "\<And>f1 f2 ch. kl_channel (hist f2) (hist f1) ch = kl_channel (hist f1) (hist f2) ch"
    by (rule kl_channel_sym)
  show ?thesis
    by (auto simp: compare_hist_def bind_e_def Let_def k split: sum.splits
             dest: colors_of_err histogram_counts_err)
qed

text \<open>
  C3, as the claim states it, fails: \<open>get_line_points\<close> returns its seed point also
  when the seed is out of the canvas, and \<open>get_line_seg_points\<close> appends the far
  endpoint without a canvas test.
\<close>

theorem rasterized_points_counterexample:
  "out_of_canvas (- 5, 0, 0) (10, 10, 10) \<and>
   get_line_points (- 5, 0, 0) (1, 0, 0) (10, 10, 10) = Some [(- 5, 0, 0)] \<and>
   out_of_canvas (12, 3, 0) (10, 10, 10) \<and>
   get_line_seg_points (0, 0, 0) (12, 3, 0) (10, 10, 10) =
     Some [(0, 0, 0), (1, 0, 0), (2, 0, 0), (3, 1, 0), (4, 1, 0), (5, 1, 0),
           (6, 1, 0), (7, 2, 0), (8, 2, 0), (9, 2, 0), (12, 3, 0)]"
  by code_simp

text \<open>
  C3, amended. Every point returned by \<open>get_line_points\<close> other than the seed point
  is in the canvas; every point returned by \<open>get_line_seg_points\<close> other than the
  last one is in the canvas; every point returned by \<open>get_ellipse_points\<close> that is
  out of the canvas is a vertex of the polygon the segments join.
\<close>

theorem rasterized_points_in_canvas:
  "(get_line_points point direction bound = Some r1 \<longrightarrow>
      (\<forall>q \<in> set r1. q \<noteq> point \<longrightarrow> \<not> out_of_canvas q bound)) \<and>
   (get_line_seg_points start endp bound = Some r2 \<longrightarrow>
      (\<forall>q \<in> set (butlast r2). \<not> out_of_canvas q bound)) \<and>
   (get_ellipse_points ellipse2Poly centre param bound = Some r3 \<longrightarrow>
      (\<forall>q \<in> set r3. out_of_canvas q bound \<longrightarrow>
         (\<exists>u \<in> set (ellipse2Poly (fst centre, fst (snd centre))
                       (min \<bar>c_int (fst param)\<bar> \<bar>c_int (fst (snd param))\<bar>,
                        max \<bar>c_int (fst param)\<bar> \<bar>c_int (fst (snd param))\<bar>)
                       (c_int (snd (snd param))) 0 360 3).
            q = (fst u, snd u, snd (snd centre)))))"
proof (intro conjI impI)
  assume a: "get_line_points point direction bound = Some r1"
  show "\<forall>q \<in> set r1. q \<noteq> point \<longrightarrow> \<not> out_of_canvas q bound"
  proof (cases "direction = (0, 0, 0)")
    case True
    then show ?thesis using a by (simp add: get_line_points_def)
  next
    case False
    from get_line_points_shape[OF a False] show ?thesis by auto
  qed
next
  assume "get_line_seg_points start endp bound = Some r2"
  then show "\<forall>q \<in> set (butlast r2). \<not> out_of_canvas q bound"
    by (rule seg_points_butlast)
next
  assume a: "get_ellipse_points ellipse2Poly centre param bound = Some r3"
  obtain cx cy cz where c: "centre = (cx, cy, cz)" by (cases centre) auto
  obtain p0 p1 p2 where p: "param = (p0, p1, p2)" by (cases param) auto
  let ?v = "ellipse2Poly (cx, cy) (min \<bar>c_int p0\<bar> \<bar>c_int p1\<bar>, max \<bar>c_int p0\<bar> \<bar>c_int p1\<bar>) (c_int p2) 0 360 3"
  have v: "get_ellipse_points ellipse2Poly centre param bound =
           (if ?v = [] then Some [] else ellipse_segs (hd ?v) (tl ?v) cz bound [])"
    unfolding get_ellipse_points_def c p by (auto simp: Let_def min_def max_def)
  show "\<forall>q \<in> set r3. out_of_canvas q bound \<longrightarrow>
         (\<exists>u \<in> set (ellipse2Poly (fst centre, fst (snd centre))
                       (min \<bar>c_int (fst param)\<bar> \<bar>c_int (fst (snd param))\<bar>,
                        max \<bar>c_int (fst param)\<bar> \<bar>c_int (fst (snd param))\<bar>)
                       (c_int (snd (snd param))) 0 360 3).
            q = (fst u, snd u, snd (snd centre)))"
  proof (cases "?v = []")
    case True
    then show ?thesis using a v by simp
  next
    case False
    then have e: "ellipse_segs (hd ?v) (tl ?v) cz bound [] = Some r3" using a v by simp
    show ?thesis
    proof (intro ballI impI)
      fix q assume "q \<in> set r3" "out_of_canvas q bound"
      from ellipse_segs_points[OF e this] have "\<exists>u \<in> set (hd ?v # tl ?v). q = (fst u, snd u, cz)" by simp
      then show "\<exists>u \<in> set (ellipse2Poly (fst centre, fst (snd centre))
                       (min \<bar>c_int (fst param)\<bar> \<bar>c_int (fst (snd param))\<bar>,
                        max \<bar>c_int (fst param)\<bar> \<bar>c_int (fst (snd param))\<bar>)
                       (c_int (snd (snd param))) 0 360 3).
            q = (fst u, snd u, snd (snd centre))"
        using False unfolding c p by simp
    qed
  qed
qed

theorem rasterized_points_in_canvas_witness:
  "get_line_points (3, 3, 0) (2, 1, 0) (10, 10, 10) =
     Some [(0, 2, 0), (1, 2, 0), (2, 3, 0), (3, 3, 0), (4, 3, 0), (5, 4, 0),
           (6, 4, 0), (7, 5, 0), (8, 5, 0), (9, 6, 0)] \<and>
   get_line_seg_points (0, 0, 0) (12, 3, 0) (10, 10, 10) =
     Some [(0, 0, 0), (1, 0, 0), (2, 0, 0), (3, 1, 0), (4, 1, 0), (5, 1, 0),
           (6, 1, 0), (7, 2, 0), (8, 2, 0), (9, 2, 0), (12, 3, 0)] \<and>
   get_ellipse_points (\<lambda>c s a a0 a1 d. [(2, 2), (8, 2), (8, 12), (2, 2)]) (5, 5, 0) (3, 2, 0) (10, 10, 10) =
     Some [(2, 2, 0), (3, 2, 0), (4, 2, 0), (5, 2, 0), (6, 2, 0), (7, 2, 0),
           (8, 2, 0), (8, 2, 0), (8, 3, 0), (8, 4, 0), (8, 5, 0), (8, 6, 0),
           (8, 7, 0), (8, 8, 0), (8, 9, 0), (8, 12, 0), (2, 2, 0), (3, 3, 0),
           (3, 4, 0), (4, 5, 0), (4, 6, 0), (5, 7, 0), (6, 8, 0), (6, 9, 0),
           (8, 12, 0)] \<and>
   \<not> out_of_canvas (9, 6, 0) (10, 10, 10) \<and> \<not> out_of_canvas (9, 2, 0) (10, 10, 10) \<and>
   \<not> out_of_canvas (6, 9, 0) (10, 10, 10)"
proof -
  let ?R1 = "[(0, 2, 0), (1, 2, 0), (2, 3, 0), (3, 3, 0), (4, 3, 0), (5, 4, 0),
           (6, 4, 0), (7, 5, 0), (8, 5, 0), (9, 6, 0)] :: point list"
  let ?R2 = "[(0, 0, 0), (1, 0, 0), (2, 0, 0), (3, 1, 0), (4, 1, 0), (5, 1, 0),
           (6, 1, 0), (7, 2, 0), (8, 2, 0), (9, 2, 0), (12, 3, 0)] :: point list"
  let ?R3 = "[(2, 2, 0), (3, 2, 0), (4, 2, 0), (5, 2, 0), (6, 2, 0), (7, 2, 0),
           (8, 2, 0), (8, 2, 0), (8, 3, 0), (8, 4, 0), (8, 5, 0), (8, 6, 0),
           (8, 7, 0), (8, 8, 0), (8, 9, 0), (8, 12, 0), (2, 2, 0), (3, 3, 0),
           (3, 4, 0), (4, 5, 0), (4, 6, 0), (5, 7, 0), (6, 8, 0), (6, 9, 0),
           (8, 12, 0)] :: point list"
  let ?E = "\<lambda>(c :: int \<times> int) (s :: int \<times> int) (a :: int) (a0 :: int) (a1 :: int) (d :: int).
              [(2, 2), (8, 2), (8, 12), (2, 2)] :: (int \<times> int) list"
  have e1: "get_line_points (3, 3, 0) (2, 1, 0) (10, 10, 10) = Some ?R1"
    by code_simp
  have e2: "get_line_seg_points (0, 0, 0) (12, 3, 0) (10, 10, 10) = Some ?R2"
    by code_simp
  have e3: "get_ellipse_points ?E (5, 5, 0) (3, 2, 0) (10, 10, 10) = Some ?R3"
    by code_simp
  from rasterized_points_in_canvas [where point = "(3, 3, 0)" and direction = "(2, 1, 0)"
      and bound = "(10, 10, 10)" and start = "(0, 0, 0)" and endp = "(12, 3, 0)"
      and ellipse2Poly = ?E and centre = "(5, 5, 0)" and param = "(3, 2, 0)"
      and ?r1.0 = ?R1 and ?r2.0 = ?R2 and ?r3.0 = ?R3] e1 e2 e3
  have "\<not> out_of_canvas (9, 6, 0) (10, 10, 10) \<and> \<not> out_of_canvas (9, 2, 0) (10, 10, 10) \<and>
        \<not> out_of_canvas (6, 9, 0) (10, 10, 10)"
    by simp
  with e1 e2 e3 show ?thesis
    by simp
qed

text \<open>
  C10. Both gradient-threshold samplers read the first and the last element of the
  rasterized sequence whatever it is. On the empty sequence the read has no defined
  result: that is the case for the zero direction (line variant), for equal endpoints
  and for two endpoints out of the canvas (segment variant). On a non-empty sequence
  whose gradients are defined the samplers return, with the first and the last
  rasterized point at the two ends of the result.
\<close>

theorem samplers_need_nonempty_rasterization:
  "scharr_thinning images [] T = Inl Undefined \<and>
   cv_line_pts_scharr_geq_T images p (0, 0, 0) T = Some (Inl Undefined) \<and>
   cv_line_seg_pts_scharr_geq_T images p p T = Some (Inl Undefined) \<and>
   (out_of_canvas s (cols (images ! 0), rows (images ! 0), int (length images)) \<and>
    out_of_canvas e (cols (images ! 0), rows (images ! 0), int (length images)) \<longrightarrow>
      cv_line_seg_pts_scharr_geq_T images s e T = Some (Inl Undefined)) \<and>
   (lp \<noteq> [] \<and> (\<forall>q \<in> set lp. \<exists>g. cv_imgs_point_scharr images q = Inr g) \<longrightarrow>
      (\<exists>mid. scharr_thinning images lp T = Inr (hd lp # mid @ [last lp])))"
proof (intro conjI impI)
  show e: "scharr_thinning images [] T = Inl Undefined"
    by (simp add: scharr_thinning_def)
  show "cv_line_pts_scharr_geq_T images p (0, 0, 0) T = Some (Inl Undefined)"
    by (auto simp: cv_line_pts_scharr_geq_T_def get_line_points_def e images_at_def
             split: sum.splits)
  show "cv_line_seg_pts_scharr_geq_T images p p T = Some (Inl Undefined)"
    by (auto simp: cv_line_seg_pts_scharr_geq_T_def seg_points_empty e images_at_def
             split: sum.splits)
next
  assume "out_of_canvas s (cols (images ! 0), rows (images ! 0), int (length images)) \<and>
    out_of_canvas e (cols (images ! 0), rows (images ! 0), int (length images))"
  then show "cv_line_seg_pts_scharr_geq_T images s e T = Some (Inl Undefined)"
    by (auto simp: cv_line_seg_pts_scharr_geq_T_def seg_points_empty scharr_thinning_def images_at_def
             split: sum.splits)
next
  assume "lp \<noteq> [] \<and> (\<forall>q \<in> set lp. \<exists>g. cv_imgs_point_scharr images q = Inr g)"
  then show "\<exists>mid. scharr_thinning images lp T = Inr (hd lp # mid @ [last lp])"
    using scharr_thinning_defined by blast
qed

theorem samplers_need_nonempty_rasterization_witness:
  "out_of_canvas (- 1, 0, 0) (5, 3, 1) \<and> out_of_canvas (7, 0, 0) (5, 3, 1) \<and>
   cv_line_seg_pts_scharr_geq_T [ridge_frame] (- 1, 0, 0) (7, 0, 0) 5 = Some (Inl Undefined) \<and>
   (\<exists>mid. scharr_thinning [ridge_frame] [(0, 1, 0), (1, 1, 0), (2, 1, 0), (3, 1, 0), (4, 1, 0)] 5 =
      Inr ((0, 1, 0) # mid @ [(4, 1, 0)]))"
  using samplers_need_nonempty_rasterization [of "[ridge_frame]" 5 "(0, 1, 0)" "(- 1, 0, 0)" "(7, 0, 0)"
      "[(0, 1, 0), (1, 1, 0), (2, 1, 0), (3, 1, 0), (4, 1, 0)]"]
  by (simp add: ridge_grad ridge_dims out_of_canvas_def)

text \<open>
  C1 fails on the code. On the example frame the line through \<open>(0, 1, 0)\<close> along the
  columns has gradients 0, 6, 10, 6, 0. With threshold 5 the three inner points are one
  Chebyshev-connected run whose maximum is at \<open>(2, 1, 0)\<close>; both samplers return the
  first and the last point only. A run is pushed only when a later qualifying point is
  not adjacent to it, so the last run of a line is never pushed.
\<close>

theorem thinning_drops_final_run:
  "cv_imgs_point_scharr [ridge_frame] (1, 1, 0) = Inr 6 \<and>
   cv_imgs_point_scharr [ridge_frame] (2, 1, 0) = Inr 10 \<and>
   cv_imgs_point_scharr [ridge_frame] (3, 1, 0) = Inr 6 \<and>
   point_cont (1, 1, 0) (2, 1, 0) \<and> point_cont (2, 1, 0) (3, 1, 0) \<and>
   get_line_points (0, 1, 0) (1, 0, 0) (5, 3, 1) =
     Some [(0, 1, 0), (1, 1, 0), (2, 1, 0), (3, 1, 0), (4, 1, 0)] \<and>
   cv_line_pts_scharr_geq_T [ridge_frame] (0, 1, 0) (1, 0, 0) 5 = Some (Inr [(0, 1, 0), (4, 1, 0)]) \<and>
   cv_line_seg_pts_scharr_geq_T [ridge_frame] (0, 1, 0) (4, 1, 0) 5 = Some (Inr [(0, 1, 0), (4, 1, 0)])"
  by (simp add: ridge_grad ridge_line ridge_seg ridge_thinning ridge_images_at ridge_dims
        cv_line_pts_scharr_geq_T_def cv_line_seg_pts_scharr_geq_T_def point_cont_def)

text \<open>
  C4 fails on the code for a nonzero direction all of whose components truncate to
  zero: the guard of \<open>get_line_points\<close> tests the doubles, \<open>bresenham\<close> the truncated
  integers, and from a seed in the canvas \<open>bresenham\<close> calls itself without end.
\<close>

theorem line_never_returns_for_small_direction:
  "\<not> out_of_canvas (0, 0, 0) (10, 10, 10) \<and>
   get_line_points (0, 0, 0) (1 / 2, 0, 0) (10, 10, 10) = None"
proof -
  have "bresenham (0, 0, 0) (1 / 2, 0, 0) (1, - 1, - 1) (10, 10, 10) [] = None"
    by (rule bresenham_never_returns) (simp_all add: c_int_def out_of_canvas_def)
  then show ?thesis
    by (simp add: get_line_points_def out_of_canvas_def)
qed

text \<open>
  C5 fails on the code. One frame of 6 columns and 13 rows that is 78 in every channel
  at (row 12, column 5) and 0 elsewhere; point (0, 0, 0), which is in the canvas;
  radius (13, 13, 0). The ellipsoidal neighbourhood of the claim is the 78 positions of
  the frame, (5, 12, 0) among them, and the claim's score, the sum over the three
  channels of \<open>sqrt (\<Sum>(x - mean)\<^sup>2 / (n - 1))\<close> with \<open>n = 78\<close>, is \<open>3 * sqrt 78\<close>. The code
  computes the inequality in doubles, finds \<open>1 + 2\<^sup>-\<^sup>5\<^sup>2\<close> at (5, 12, 0), enumerates the
  other 77 positions only, and returns 0.
\<close>

theorem var_loc_drops_boundary_point:
  "\<not> out_of_canvas (0, 0, 0) (6, 13, 1) \<and>
   neighbourhood (0, 0, 0) (13, 13, 0) (6, 13, 1) = corner_positions \<and>
   length corner_positions = 78 \<and> last corner_positions = (5, 12, 0) \<and>
   sample_std (map (\<lambda>pos. pixel_value [corner_frame] pos 0) corner_positions)
     + sample_std (map (\<lambda>pos. pixel_value [corner_frame] pos 1) corner_positions)
     + sample_std (map (\<lambda>pos. pixel_value [corner_frame] pos 2) corner_positions) = 3 * sqrt 78 \<and>
   d_add (d_add (ellipsoid_term pow_sq 5 0 13) (ellipsoid_term pow_sq 12 0 13))
     (ellipsoid_term pow_sq 0 0 0) = 1 + 1 / 2 ^ 52 \<and>
   local_point_set pow_sq (0, 0, 0) (13, 13, 0) (6, 13, 1) = butlast corner_positions \<and>
   cv_imgs_point_var_loc pow_sq [corner_frame] (0, 0, 0) (13, 13, 0) = Inr (Some 0)"
proof -
  have "\<not> out_of_canvas (0, 0, 0) (6, 13, 1)"
    by (simp add: out_of_canvas_def)
  moreover have "last corner_positions = (5, 12, 0)"
    unfolding corner_positions_list by simp
  ultimately show ?thesis
    by (simp add: corner_neighbourhood corner_length corner_std corner_sum corner_point_set corner_var)
qed

end
